theory Spec2Isabelle
  imports Complex_Main "HOL-Library.Char_ord" "HOL-Library.List_Lexorder"
    "HOL-Library.Product_Lexorder" "HOL-Library.Multiset"
begin

section \<open>Data model of the label editor\<close>

text \<open>
  The label file is a JSON list of records. Each record is a dictionary with the keys
  \<^verbatim>\<open>File\<close> and \<^verbatim>\<open>Labels\<close>; the program reads both with
  \<^verbatim>\<open>rec.get(key, default)\<close>, so either key may be absent. Every label is a dictionary
  with the keys \<^verbatim>\<open>Class\<close> and \<^verbatim>\<open>BoundingBoxes\<close>, the latter a flat list of
  scalars \<^verbatim>\<open>[cx, cy, cz, w, h, d, yaw, ...]\<close>. Scalars are modelled as real numbers,
  text as lists of characters. Sums, products and the trigonometric functions are
  exact; the conversions between degrees and radians of the rotation slider, whose
  rounding decides which whole number the slider shows, round as Python's floats do.
\<close>

type_synonym point = "real \<times> real \<times> real"

record label =
  Class :: string
  BoundingBoxes :: "real list"

record frame =
  File :: "string option"
  Labels :: "label list option"

text \<open>
  The state of an \<^verbatim>\<open>Editor\<close> window, as far as the program's own code reads and writes
  it: \<^verbatim>\<open>self.data\<close>, the current record \<^verbatim>\<open>self.i\<close>, the active point cloud
  \<^verbatim>\<open>self.pts\<close>, the listing of the directory \<^verbatim>\<open>self.pcd_dir\<close>, the current index of
  the label selector \<^verbatim>\<open>self.combo\<close> (\<open>-1\<close> when it is empty) and the value of the
  rotation slider \<^verbatim>\<open>self.rot\<close>.
\<close>

record editor =
  data :: "frame list"
  frame_i :: nat
  pts :: "point list"
  pcd_dir :: "string list"
  combo :: int
  rot :: int

datatype py_error = IndexError | KeyError | ValueError | TypeError | QhullError

text \<open>
  A method either runs to its end or raises. A Python exception does not undo the
  assignments made before it, so both outcomes carry the editor's state.
\<close>

datatype outcome = Done editor | Raised py_error editor

fun state_of :: "outcome \<Rightarrow> editor" where
  "state_of (Done s) = s"
| "state_of (Raised e s) = s"

definition labels_of :: "frame \<Rightarrow> label list" where
  \<comment> \<open>\<^verbatim>\<open>rec.get('Labels', [])\<close>\<close>
  "labels_of r = (case Labels r of None \<Rightarrow> [] | Some ls \<Rightarrow> ls)"

definition cur_labels :: "editor \<Rightarrow> label list" where
  "cur_labels s = labels_of (data s ! frame_i s)"

text \<open>
  The list \<^verbatim>\<open>labs\<close> that the methods below change in place is the one stored in
  the current record: \<open>set_cur_labels\<close> writes the changed list back.
\<close>

definition set_cur_labels :: "editor \<Rightarrow> label list \<Rightarrow> editor" where
  "set_cur_labels s labs =
     s\<lparr>data := (data s)[frame_i s := (data s ! frame_i s)\<lparr>Labels := Some labs\<rparr>]\<rparr>"

section \<open>Library functions the program calls\<close>

text \<open>
  The program calls \<^verbatim>\<open>os.path.splitext\<close>, \<^verbatim>\<open>str.lower\<close>, \<^verbatim>\<open>str.endswith\<close>,
  \<^verbatim>\<open>str.startswith\<close>, \<^verbatim>\<open>str.strip\<close>, \<^verbatim>\<open>difflib.get_close_matches\<close>,
  \<^verbatim>\<open>math.radians\<close> and \<^verbatim>\<open>math.degrees\<close> of the Python standard library. They
  are modelled here from the library's code (CPython 3.12, POSIX paths). A character is one of the 256 values of \<^typ>\<open>char\<close>; strings are
  compared as Python compares them, character by character in the order of the codes.
\<close>

subsection \<open>Strings\<close>

definition endswith :: "string \<Rightarrow> string \<Rightarrow> bool" where
  "endswith s suf \<longleftrightarrow>
     length suf \<le> length s \<and> drop (length s - length suf) s = suf"

definition startswith :: "string \<Rightarrow> string \<Rightarrow> bool" where
  "startswith s pre \<longleftrightarrow> take (length pre) s = pre"

definition lower_char :: "char \<Rightarrow> char" where
  "lower_char c =
     (let n = (of_char c :: nat) in
      if (65 \<le> n \<and> n \<le> 90) \<or> (192 \<le> n \<and> n \<le> 222 \<and> n \<noteq> 215)
      then char_of (n + 32) else c)"

definition lower :: "string \<Rightarrow> string" where
  "lower s = map lower_char s"

definition isspace :: "char \<Rightarrow> bool" where
  "isspace c \<longleftrightarrow>
     (let n = (of_char c :: nat) in
      (9 \<le> n \<and> n \<le> 13) \<or> (28 \<le> n \<and> n \<le> 32) \<or> n = 133 \<or> n = 160)"

definition strip :: "string \<Rightarrow> string" where
  "strip s = rev (dropWhile isspace (rev (dropWhile isspace s)))"

subsection \<open>\<^verbatim>\<open>os.path.splitext\<close>\<close>

text \<open>
  \<^verbatim>\<open>p.rfind(c)\<close> is the last index of \<open>c\<close> in \<open>p\<close>, or \<open>-1\<close>.
  \<^verbatim>\<open>splitext\<close> splits at the last dot, if that dot comes after the last slash and
  some character between the two is not a dot (leading dots of the file name do not
  start an extension).
\<close>

definition rfind :: "string \<Rightarrow> char \<Rightarrow> int" where
  "rfind p c =
     (case filter (\<lambda>k. p ! k = c) (rev [0..<length p]) of
        [] \<Rightarrow> - 1
      | k # _ \<Rightarrow> int k)"

definition splitext :: "string \<Rightarrow> string \<times> string" where
  "splitext p =
     (let sepIndex = rfind p CHR ''/'';
          dotIndex = rfind p CHR ''.''
      in if dotIndex > sepIndex \<and>
            list_ex (\<lambda>k. p ! k \<noteq> CHR ''.'') [nat (sepIndex + 1)..<nat dotIndex]
         then (take (nat dotIndex) p, drop (nat dotIndex) p)
         else (p, []))"

subsection \<open>\<^verbatim>\<open>difflib.SequenceMatcher\<close>\<close>

text \<open>
  \<^verbatim>\<open>get_close_matches\<close> builds a \<^verbatim>\<open>SequenceMatcher\<close> with no junk predicate, the
  word as its second sequence \<open>b\<close> and each candidate in turn as its first sequence
  \<open>a\<close>.

  \<open>b2j b elt\<close> is \<^verbatim>\<open>self.b2j.get(elt, [])\<close>: the indices of \<open>elt\<close> in \<open>b\<close>, in
  increasing order, unless \<open>elt\<close> is popular (\<open>b\<close> has at least 200 elements and
  \<open>elt\<close> occurs more than \<open>len(b) // 100 + 1\<close> times), in which case the entry has been
  deleted.
\<close>

definition b2j :: "string \<Rightarrow> char \<Rightarrow> nat list" where
  "b2j b elt =
     (let idxs = filter (\<lambda>j. b ! j = elt) [0..<length b] in
      if 200 \<le> length b \<and> length b div 100 + 1 < length idxs then [] else idxs)"

text \<open>
  The state of the main loop of \<^verbatim>\<open>find_longest_match\<close> is the dictionary
  \<^verbatim>\<open>j2len\<close> (a missing key reads as 0) and the best match so far. The step for one
  pair \<open>(i, j)\<close> with \<open>a[i] = b[j]\<close> reads \<^verbatim>\<open>j2len.get(j-1, 0)\<close> (0 when \<open>j = 0\<close>,
  no key is negative) and writes \<^verbatim>\<open>newj2len[j]\<close>; \<open>k\<close> never exceeds \<open>i + 1\<close> and
  \<open>j + 1\<close>, so that \<open>i-k+1\<close> and \<open>j-k+1\<close> are the natural numbers \<open>Suc i - k\<close> and
  \<open>Suc j - k\<close>.
\<close>

type_synonym match = "nat \<times> nat \<times> nat"

definition flm_step ::
  "(nat \<Rightarrow> nat) \<Rightarrow> nat \<Rightarrow> nat \<Rightarrow> (nat \<Rightarrow> nat) \<times> match \<Rightarrow> (nat \<Rightarrow> nat) \<times> match" where
  "flm_step j2len i j st =
     (case st of (newj2len, besti, bestj, bestsize) \<Rightarrow>
        let k = (if j = 0 then 0 else j2len (j - 1)) + 1 in
        if bestsize < k then (newj2len(j := k), Suc i - k, Suc j - k, k)
        else (newj2len(j := k), besti, bestj, bestsize))"

text \<open>
  One round of the outer loop: the indices of \<open>a[i]\<close> in \<open>b\<close> are increasing, so
  skipping those below \<open>blo\<close> and stopping at the first one not below \<open>bhi\<close> visits
  those within \<open>[blo, bhi)\<close>.
\<close>

definition flm_row ::
  "string \<Rightarrow> string \<Rightarrow> nat \<Rightarrow> nat \<Rightarrow> nat \<Rightarrow> (nat \<Rightarrow> nat) \<times> match \<Rightarrow> (nat \<Rightarrow> nat) \<times> match" where
  "flm_row a b blo bhi i st =
     (case st of (j2len, best) \<Rightarrow>
        fold (flm_step j2len i) (filter (\<lambda>j. blo \<le> j \<and> j < bhi) (b2j b (a ! i)))
          (\<lambda>_. 0, best))"

text \<open>
  The two loops that extend the best match by matching elements on each end. No
  element is junk, so their tests \<^verbatim>\<open>not isbjunk(...)\<close> hold, and the two later loops
  that take in junk elements never run.
\<close>

function extend_left :: "string \<Rightarrow> string \<Rightarrow> nat \<Rightarrow> nat \<Rightarrow> match \<Rightarrow> match" where
  "extend_left a b alo blo (besti, bestj, bestsize) =
     (if alo < besti \<and> blo < bestj \<and> a ! (besti - 1) = b ! (bestj - 1)
      then extend_left a b alo blo (besti - 1, bestj - 1, bestsize + 1)
      else (besti, bestj, bestsize))"
  by pat_completeness auto
termination
  by (relation "measure (\<lambda>(a, b, alo, blo, besti, bestj, bestsize). besti)") auto

function extend_right :: "string \<Rightarrow> string \<Rightarrow> nat \<Rightarrow> nat \<Rightarrow> match \<Rightarrow> match" where
  "extend_right a b ahi bhi (besti, bestj, bestsize) =
     (if besti + bestsize < ahi \<and> bestj + bestsize < bhi \<and>
         a ! (besti + bestsize) = b ! (bestj + bestsize)
      then extend_right a b ahi bhi (besti, bestj, bestsize + 1)
      else (besti, bestj, bestsize))"
  by pat_completeness auto
termination
  by (relation "measure (\<lambda>(a, b, ahi, bhi, besti, bestj, bestsize). ahi - (besti + bestsize))")
     auto

declare extend_left.simps [simp del] extend_right.simps [simp del]

definition find_longest_match ::
  "string \<Rightarrow> string \<Rightarrow> nat \<Rightarrow> nat \<Rightarrow> nat \<Rightarrow> nat \<Rightarrow> match" where
  "find_longest_match a b alo ahi blo bhi =
     extend_right a b ahi bhi
       (extend_left a b alo blo
          (snd (fold (flm_row a b blo bhi) [alo..<ahi] (\<lambda>_. 0, alo, blo, 0))))"

text \<open>
  Invariants of the main loop, for the rows below \<open>i\<close>: every entry of \<^verbatim>\<open>j2len\<close>
  is the length of a run of equal elements ending at \<open>a[i-1]\<close> and \<open>b[j]\<close> within
  the region, and so is the best match. They give the bounds that make the loop of
  \<^verbatim>\<open>get_matching_blocks\<close> terminate.
\<close>

definition j2len_ok ::
  "string \<Rightarrow> string \<Rightarrow> nat \<Rightarrow> nat \<Rightarrow> nat \<Rightarrow> nat \<Rightarrow> (nat \<Rightarrow> nat) \<Rightarrow> bool" where
  "j2len_ok a b alo blo bhi i f \<longleftrightarrow>
     (\<forall>j. f j \<le> i - alo \<and>
          (0 < f j \<longrightarrow> blo \<le> j \<and> j < bhi \<and> f j \<le> Suc j - blo \<and>
             (\<forall>t < f j. a ! (i - 1 - t) = b ! (j - t))))"

definition best_ok ::
  "string \<Rightarrow> string \<Rightarrow> nat \<Rightarrow> nat \<Rightarrow> nat \<Rightarrow> nat \<Rightarrow> match \<Rightarrow> bool" where
  "best_ok a b alo blo bhi i m \<longleftrightarrow>
     (case m of (besti, bestj, bestsize) \<Rightarrow>
        alo \<le> besti \<and> blo \<le> bestj \<and>
        (bestsize = 0 \<longrightarrow> besti = alo \<and> bestj = blo) \<and>
        (0 < bestsize \<longrightarrow> besti + bestsize \<le> i \<and> bestj + bestsize \<le> bhi) \<and>
        (\<forall>t < bestsize. a ! (besti + t) = b ! (bestj + t)))"

lemma j2len_ok_le: "j2len_ok a b alo blo bhi i f \<Longrightarrow> f j \<le> i - alo"
  by (simp add: j2len_ok_def)

lemma j2len_ok_pos:
  "j2len_ok a b alo blo bhi i f \<Longrightarrow> 0 < f j \<Longrightarrow> blo \<le> j \<and> j < bhi \<and> f j \<le> Suc j - blo"
  by (simp add: j2len_ok_def)

lemma j2len_ok_nth:
  "j2len_ok a b alo blo bhi i f \<Longrightarrow> t < f j \<Longrightarrow> a ! (i - 1 - t) = b ! (j - t)"
  unfolding j2len_ok_def by (metis gr_implies_not_zero not_gr_zero)

lemma j2len_ok_zero: "j2len_ok a b alo blo bhi i (\<lambda>_. 0)"
  by (simp add: j2len_ok_def)

lemma best_ok_mono: "best_ok a b alo blo bhi i m \<Longrightarrow> i \<le> i' \<Longrightarrow> best_ok a b alo blo bhi i' m"
  by (auto simp: best_ok_def split: prod.splits)

lemma flm_step_ok:
  assumes old: "j2len_ok a b alo blo bhi i old"
    and i: "alo \<le> i" and j: "blo \<le> j" "j < bhi" and eq: "a ! i = b ! j"
    and nj: "j2len_ok a b alo blo bhi (Suc i) nj"
    and best: "best_ok a b alo blo bhi (Suc i) best"
    and step: "flm_step old i j (nj, best) = (nj', best')"
  shows "j2len_ok a b alo blo bhi (Suc i) nj' \<and> best_ok a b alo blo bhi (Suc i) best'"
proof -
  define k where "k = (if j = 0 then 0 else old (j - 1)) + 1"
  have k1: "k \<le> Suc i - alo"
    using j2len_ok_le[OF old, of "j - 1"] i by (auto simp: k_def)
  have k2: "k \<le> Suc j - blo"
  proof (cases "j = 0 \<or> old (j - 1) = 0")
    case True
    then show ?thesis using j by (auto simp: k_def)
  next
    case False
    then have "old (j - 1) \<le> Suc (j - 1) - blo \<and> blo \<le> j - 1"
      using j2len_ok_pos[OF old, of "j - 1"] by simp
    then show ?thesis using False by (auto simp: k_def)
  qed
  have k3: "a ! (i - t) = b ! (j - t)" if "t < k" for t
  proof (cases t)
    case 0
    then show ?thesis using eq by simp
  next
    case (Suc t')
    then have pos: "j \<noteq> 0" "t' < old (j - 1)"
      using that by (auto simp: k_def split: if_splits)
    then have "a ! (i - 1 - t') = b ! (j - 1 - t')"
      using j2len_ok_nth[OF old, of t' "j - 1"] by simp
    then show ?thesis using Suc by simp
  qed
  have nj': "nj' = nj(j := k)"
    using step by (auto simp: flm_step_def k_def Let_def split: prod.splits if_splits)
  have "j2len_ok a b alo blo bhi (Suc i) nj'"
    unfolding j2len_ok_def
  proof (intro allI)
    fix j'
    show "nj' j' \<le> Suc i - alo \<and>
          (0 < nj' j' \<longrightarrow> blo \<le> j' \<and> j' < bhi \<and> nj' j' \<le> Suc j' - blo \<and>
             (\<forall>t < nj' j'. a ! (Suc i - 1 - t) = b ! (j' - t)))"
    proof (cases "j' = j")
      case True
      then show ?thesis using k1 k2 k3 j by (simp add: nj')
    next
      case False
      then show ?thesis using nj by (simp add: nj' j2len_ok_def)
    qed
  qed
  moreover have "best_ok a b alo blo bhi (Suc i) best'"
  proof (cases best)
    case (fields besti bestj bestsize)
    show ?thesis
    proof (cases "bestsize < k")
      case True
      then have b': "best' = (Suc i - k, Suc j - k, k)"
        using step fields by (auto simp: flm_step_def k_def Let_def)
      have kpos: "0 < k" by (simp add: k_def)
      have "a ! (Suc i - k + t) = b ! (Suc j - k + t)" if "t < k" for t
      proof -
        have "k - 1 - t < k" using kpos by simp
        from k3[OF this] have *: "a ! (i - (k - 1 - t)) = b ! (j - (k - 1 - t))" .
        have e1: "i - (k - 1 - t) = Suc i - k + t"
          using that k1 by arith
        have e2: "j - (k - 1 - t) = Suc j - k + t"
          using that k2 by arith
        show ?thesis using * unfolding e1 e2 .
      qed
      then show ?thesis
        using k1 k2 kpos i j by (auto simp: b' best_ok_def)
    next
      case False
      then have "best' = best"
        using step fields by (auto simp: flm_step_def k_def Let_def)
      then show ?thesis using best by simp
    qed
  qed
  ultimately show ?thesis by simp
qed

lemma b2j_mem: "j \<in> set (b2j b c) \<Longrightarrow> j < length b \<and> b ! j = c"
  by (auto simp: b2j_def Let_def split: if_splits)

lemma fold_flm_step_ok:
  assumes "j2len_ok a b alo blo bhi i old" and "alo \<le> i"
    and "\<forall>j \<in> set js. blo \<le> j \<and> j < bhi \<and> a ! i = b ! j"
    and "j2len_ok a b alo blo bhi (Suc i) nj" and "best_ok a b alo blo bhi (Suc i) best"
  shows "j2len_ok a b alo blo bhi (Suc i) (fst (fold (flm_step old i) js (nj, best))) \<and>
         best_ok a b alo blo bhi (Suc i) (snd (fold (flm_step old i) js (nj, best)))"
  using assms
proof (induction js arbitrary: nj best)
  case Nil
  then show ?case by simp
next
  case (Cons j js)
  obtain nj' best' where st: "flm_step old i j (nj, best) = (nj', best')"
    by (cases "flm_step old i j (nj, best)")
  have "j2len_ok a b alo blo bhi (Suc i) nj' \<and> best_ok a b alo blo bhi (Suc i) best'"
    using flm_step_ok[OF Cons.prems(1) Cons.prems(2) _ _ _ Cons.prems(4) Cons.prems(5) st]
      Cons.prems(3) by simp
  then show ?case
    using Cons.IH[of nj' best'] Cons.prems(1,2,3) by (simp add: st)
qed

lemma flm_row_ok:
  assumes "j2len_ok a b alo blo bhi i (fst st)" and "alo \<le> i"
    and "best_ok a b alo blo bhi i (snd st)"
  shows "j2len_ok a b alo blo bhi (Suc i) (fst (flm_row a b blo bhi i st)) \<and>
         best_ok a b alo blo bhi (Suc i) (snd (flm_row a b blo bhi i st))"
proof -
  obtain old best where st: "st = (old, best)" by (cases st)
  have "\<forall>j \<in> set (filter (\<lambda>j. blo \<le> j \<and> j < bhi) (b2j b (a ! i))).
          blo \<le> j \<and> j < bhi \<and> a ! i = b ! j"
    using b2j_mem by auto
  then show ?thesis
    using fold_flm_step_ok[of a b alo blo bhi i old _ "\<lambda>_. 0" best] assms
      best_ok_mono[of a b alo blo bhi i best "Suc i"]
    by (simp add: st flm_row_def j2len_ok_zero)
qed

lemma fold_flm_row_ok:
  assumes "alo \<le> ahi"
  shows "j2len_ok a b alo blo bhi ahi
           (fst (fold (flm_row a b blo bhi) [alo..<ahi] (\<lambda>_. 0, alo, blo, 0))) \<and>
         best_ok a b alo blo bhi ahi
           (snd (fold (flm_row a b blo bhi) [alo..<ahi] (\<lambda>_. 0, alo, blo, 0)))"
  using assms
proof (induction rule: dec_induct)
  case base
  show ?case by (simp add: j2len_ok_zero best_ok_def)
next
  case (step n)
  then show ?case
    using flm_row_ok[of a b alo blo bhi n
        "fold (flm_row a b blo bhi) [alo..<n] (\<lambda>_. 0, alo, blo, 0)"]
    by simp
qed

lemma main_loop_best_ok:
  "best_ok a b alo blo bhi ahi
     (snd (fold (flm_row a b blo bhi) [alo..<ahi] (\<lambda>_. 0, alo, blo, 0)))"
proof (cases "alo \<le> ahi")
  case True
  then show ?thesis using fold_flm_row_ok by blast
next
  case False
  then show ?thesis by (simp add: best_ok_def)
qed

lemma extend_left_ok:
  "best_ok a b alo blo bhi i m \<Longrightarrow> best_ok a b alo blo bhi i (extend_left a b alo blo m)"
proof (induction a b alo blo m rule: extend_left.induct)
  case (1 a b alo blo besti bestj bestsize)
  show ?case
  proof (cases "alo < besti \<and> blo < bestj \<and> a ! (besti - 1) = b ! (bestj - 1)")
    case True
    have pos: "0 < bestsize"
      using True "1.prems" by (auto simp: best_ok_def)
    have nth: "a ! (besti - 1 + t) = b ! (bestj - 1 + t)" if "t < bestsize + 1" for t
    proof (cases t)
      case 0
      then show ?thesis using True by simp
    next
      case (Suc t')
      then have "a ! (besti + t') = b ! (bestj + t')"
        using that "1.prems" by (simp add: best_ok_def)
      moreover have "besti - 1 + t = besti + t'" "bestj - 1 + t = bestj + t'"
        using True Suc by auto
      ultimately show ?thesis by (simp only:)
    qed
    have "best_ok a b alo blo bhi i (besti - 1, bestj - 1, bestsize + 1)"
      unfolding best_ok_def prod.case
    proof (intro conjI impI allI)
      show "alo \<le> besti - 1" "blo \<le> bestj - 1" using True by auto
      show "besti - 1 + (bestsize + 1) \<le> i" "bestj - 1 + (bestsize + 1) \<le> bhi"
        using True pos "1.prems" by (auto simp: best_ok_def)
      show "besti - 1 = alo" "bestj - 1 = blo" if "bestsize + 1 = 0"
        using that by simp_all
      show "a ! (besti - 1 + t) = b ! (bestj - 1 + t)" if "t < bestsize + 1" for t
        using nth that .
    qed
    then show ?thesis
      using True "1.IH" by (subst extend_left.simps) simp
  next
    case False
    then show ?thesis
      using "1.prems" by (subst extend_left.simps) auto
  qed
qed

lemma extend_right_ok:
  "best_ok a b alo blo bhi ahi m \<Longrightarrow> best_ok a b alo blo bhi ahi (extend_right a b ahi bhi m)"
proof (induction a b ahi bhi m rule: extend_right.induct)
  case (1 a b ahi bhi besti bestj bestsize)
  show ?case
  proof (cases "besti + bestsize < ahi \<and> bestj + bestsize < bhi \<and>
         a ! (besti + bestsize) = b ! (bestj + bestsize)")
    case True
    have "best_ok a b alo blo bhi ahi (besti, bestj, bestsize + 1)"
      using True "1.prems" by (auto simp: best_ok_def less_Suc_eq)
    then show ?thesis
      using True "1.IH" by (subst extend_right.simps) simp
  next
    case False
    then show ?thesis
      using "1.prems" by (subst extend_right.simps) auto
  qed
qed

lemma find_longest_match_ok:
  "best_ok a b alo blo bhi ahi (find_longest_match a b alo ahi blo bhi)"
  unfolding find_longest_match_def
  by (intro extend_right_ok extend_left_ok main_loop_best_ok)

lemma find_longest_match_bounds:
  assumes "find_longest_match a b alo ahi blo bhi = (i, j, k)" and "k \<noteq> 0"
  shows "alo \<le> i \<and> i + k \<le> ahi \<and> blo \<le> j \<and> j + k \<le> bhi"
  using find_longest_match_ok[of a b alo blo bhi ahi] assms by (simp add: best_ok_def)

lemma find_longest_match_eq:
  assumes "find_longest_match a b alo ahi blo bhi = (i, j, k)" and "t < k"
  shows "a ! (i + t) = b ! (j + t)"
  using find_longest_match_ok[of a b alo blo bhi ahi] assms by (simp add: best_ok_def)

text \<open>
  \<^verbatim>\<open>get_matching_blocks\<close>: the queue of regions still to look at is a stack; its
  top, which \<^verbatim>\<open>queue.pop()\<close> takes, is the head of the list here, so the region
  appended last (the one after the match) comes first.
\<close>

type_synonym region = "nat \<times> nat \<times> nat \<times> nat"

function gmb_loop :: "string \<Rightarrow> string \<Rightarrow> region list \<Rightarrow> match list \<Rightarrow> match list" where
  "gmb_loop a b [] matching_blocks = matching_blocks"
| "gmb_loop a b ((alo, ahi, blo, bhi) # queue) matching_blocks =
     (case find_longest_match a b alo ahi blo bhi of
        (i, j, k) \<Rightarrow>
          if k \<noteq> 0 then
            gmb_loop a b
              ((if i + k < ahi \<and> j + k < bhi then [(i + k, ahi, j + k, bhi)] else []) @
               (if alo < i \<and> blo < j then [(alo, i, blo, j)] else []) @ queue)
              (matching_blocks @ [(i, j, k)])
          else gmb_loop a b queue matching_blocks)"
  by pat_completeness auto
termination
proof (relation "measure (\<lambda>(a, b, queue, blocks).
         sum_list (map (\<lambda>(alo, ahi, blo, bhi). Suc ((ahi - alo) + (bhi - blo))) queue))",
       goal_cases)
  case 1
  show ?case by simp
next
  case (2 a b alo ahi blo bhi queue blocks i y j k)
  then have "find_longest_match a b alo ahi blo bhi = (i, j, k)" and "k \<noteq> 0"
    by simp_all
  then have "alo \<le> i \<and> i + k \<le> ahi \<and> blo \<le> j \<and> j + k \<le> bhi"
    by (rule find_longest_match_bounds)
  then show ?case using \<open>k \<noteq> 0\<close> by (auto split: if_splits)
next
  case 3
  then show ?case by simp
qed

declare gmb_loop.simps(2) [simp del]

text \<open>
  \<^verbatim>\<open>ratio()\<close> adds up the sizes of the matching blocks. Sorting the blocks, merging
  adjacent ones and appending the final block of size 0, as \<^verbatim>\<open>get_matching_blocks\<close>
  does before it returns, leave that sum as it is; they are not modelled.
\<close>

definition get_matching_blocks :: "string \<Rightarrow> string \<Rightarrow> match list" where
  "get_matching_blocks a b = gmb_loop a b [(0, length a, 0, length b)] []"

definition calculate_ratio :: "nat \<Rightarrow> nat \<Rightarrow> real" where
  "calculate_ratio matches len = (if len \<noteq> 0 then 2 * real matches / real len else 1)"

definition ratio :: "string \<Rightarrow> string \<Rightarrow> real" where
  "ratio a b =
     calculate_ratio (sum_list (map (\<lambda>(i, j, k). k) (get_matching_blocks a b)))
       (length a + length b)"

text \<open>
  \<^verbatim>\<open>quick_ratio()\<close>: \<^verbatim>\<open>fullbcount\<close> counts the elements of \<open>b\<close>, \<^verbatim>\<open>avail\<close>
  what is left of each count while the elements of \<open>a\<close> are read.
\<close>

fun quick_loop :: "(char \<Rightarrow> int) \<Rightarrow> (char \<rightharpoonup> int) \<Rightarrow> string \<Rightarrow> nat \<Rightarrow> nat" where
  "quick_loop fullbcount avail [] matches = matches"
| "quick_loop fullbcount avail (elt # rest) matches =
     (let numb = (case avail elt of Some n \<Rightarrow> n | None \<Rightarrow> fullbcount elt)
      in quick_loop fullbcount (avail(elt \<mapsto> numb - 1)) rest
           (if 0 < numb then matches + 1 else matches))"

definition quick_ratio :: "string \<Rightarrow> string \<Rightarrow> real" where
  "quick_ratio a b =
     calculate_ratio (quick_loop (\<lambda>elt. int (count_list b elt)) Map.empty a 0)
       (length a + length b)"

definition real_quick_ratio :: "string \<Rightarrow> string \<Rightarrow> real" where
  "real_quick_ratio a b =
     calculate_ratio (min (length a) (length b)) (length a + length b)"

subsection \<open>\<^verbatim>\<open>difflib.get_close_matches\<close>\<close>

text \<open>
  The candidates that pass the three tests are paired with their score; the \<open>n\<close>
  largest pairs are returned, best first (\<^verbatim>\<open>heapq.nlargest\<close>, which is
  \<^verbatim>\<open>sorted(result, reverse=True)[:n]\<close>). Pairs are compared by score, then by string.
\<close>

definition get_close_matches ::
  "string \<Rightarrow> string list \<Rightarrow> nat \<Rightarrow> real \<Rightarrow> py_error + string list" where
  "get_close_matches word possibilities n cutoff =
     (if \<not> 0 < n then Inl ValueError
      else if \<not> (0 \<le> cutoff \<and> cutoff \<le> 1) then Inl ValueError
      else
        let result =
          map (\<lambda>x. (ratio x word, x))
            (filter (\<lambda>x. cutoff \<le> real_quick_ratio x word \<and>
                          cutoff \<le> quick_ratio x word \<and>
                          cutoff \<le> ratio x word) possibilities)
        in Inr (map snd (take n (rev (sort result)))))"

subsection \<open>\<^verbatim>\<open>math.radians\<close>, \<^verbatim>\<open>math.degrees\<close>, \<^verbatim>\<open>%\<close> and \<^verbatim>\<open>int\<close> on floats\<close>

text \<open>
  A Python float is an IEEE-754 double: zero, or \<open>m * 2 ^ e\<close> with a whole number
  \<open>m\<close> of 53 bits. The result of a multiplication or an addition is the double
  nearest to the exact result, and of two doubles equally near the one with the even
  \<open>m\<close>. \<open>fl x\<close> is that double: with \<open>e\<close> the exponent of \<open>x\<close>, the doubles around
  \<open>x\<close> are the multiples of \<open>u = 2 ^ (e - 52)\<close>. The range of the exponent is not
  bounded here; a result too large for a double is recognised by \<open>overflows\<close>, and it
  is then infinite in Python.
\<close>

definition round_even :: "real \<Rightarrow> int" where
  "round_even y =
     (let f = \<lfloor>y\<rfloor>; r = y - of_int f in
      if r < 1 / 2 then f else if 1 / 2 < r then f + 1 else if even f then f else f + 1)"

definition fl :: "real \<Rightarrow> real" where
  "fl x =
     (if x = 0 then 0
      else let e = \<lfloor>log 2 \<bar>x\<bar>\<rfloor>; u = 2 powr (of_int e - 52)
           in of_int (round_even (x / u)) * u)"

definition overflows :: "real \<Rightarrow> bool" where
  "overflows x \<longleftrightarrow> 2 ^ 1024 - 2 ^ 970 \<le> \<bar>x\<bar>"

text \<open>
  \<^verbatim>\<open>math.pi\<close> is the double \<^verbatim>\<open>0x1.921fb54442d18p+1\<close>. The C code of
  \<^verbatim>\<open>math.radians\<close> and \<^verbatim>\<open>math.degrees\<close> multiplies its argument by the constants
  \<^verbatim>\<open>degToRad = Py_MATH_PI / 180.0\<close> and \<^verbatim>\<open>radToDeg = 180.0 / Py_MATH_PI\<close>.
\<close>

definition math_pi :: real where
  "math_pi = 884279719003555 / 2 ^ 48"

definition degToRad :: real where
  "degToRad = fl (math_pi / 180)"

definition radToDeg :: real where
  "radToDeg = fl (180 / math_pi)"

definition radians :: "real \<Rightarrow> real" where
  "radians x = fl (x * degToRad)"

definition degrees :: "real \<Rightarrow> real" where
  "degrees x = fl (x * radToDeg)"

text \<open>
  \<^verbatim>\<open>int(y)\<close> cuts off the fraction. \<^verbatim>\<open>x % m\<close> on floats is the C function
  \<^verbatim>\<open>fmod\<close>, whose result is exact and has the sign of \<open>x\<close>, followed by the addition
  of \<open>m\<close> when the result is not zero and its sign differs from the sign of \<open>m\<close>;
  that addition rounds.
\<close>

definition py_int :: "real \<Rightarrow> int" where
  "py_int y = (if 0 \<le> y then \<lfloor>y\<rfloor> else \<lceil>y\<rceil>)"

definition fmod :: "real \<Rightarrow> real \<Rightarrow> real" where
  "fmod x m = x - m * of_int (py_int (x / m))"

definition float_mod :: "real \<Rightarrow> real \<Rightarrow> real" where
  "float_mod x m =
     (let r = fmod x m in
      if r \<noteq> 0 \<and> (m < 0) \<noteq> (r < 0) then fl (r + m) else r)"

section \<open>Filename reconciliation\<close>

text \<open>
  \<^verbatim>\<open>sync_json_pcd_filenames(json_path, pcd_dir, cutoff)\<close> reads the label file and the
  directory and either returns early after a warning or overwrites the label file.
  The model takes the content of the label file and the listing of the directory and
  returns how the function ended together with the content of the label file
  afterwards.
\<close>

datatype sync_outcome =
  Count_mismatch | No_fuzzy_match string | Sync_complete | Sync_raised py_error

definition stem :: "string \<Rightarrow> string" where
  \<comment> \<open>\<^verbatim>\<open>os.path.splitext(f)[0]\<close>\<close>
  "stem f = fst (splitext f)"

definition file_or_empty :: "frame \<Rightarrow> string" where
  \<comment> \<open>\<^verbatim>\<open>rec.get('File', '')\<close>\<close>
  "file_or_empty r = (case File r of None \<Rightarrow> [] | Some f \<Rightarrow> f)"

text \<open>
  The loop over the records that collects \<^verbatim>\<open>new_files\<close>; it stops at the first
  record without a match.
\<close>

fun match_records :: "frame list \<Rightarrow> string list \<Rightarrow> real \<Rightarrow> sync_outcome + string list" where
  "match_records [] basenames cutoff = Inr []"
| "match_records (r # rest) basenames cutoff =
     (let orig = file_or_empty r; base = stem orig in
      case get_close_matches base basenames 1 cutoff of
        Inl e \<Rightarrow> Inl (Sync_raised e)
      | Inr [] \<Rightarrow> Inl (No_fuzzy_match orig)
      | Inr (m # _) \<Rightarrow>
          (case match_records rest basenames cutoff of
             Inl out \<Rightarrow> Inl out
           | Inr new_files \<Rightarrow> Inr ((m @ ''.pcd'') # new_files)))"

definition sync_json_pcd_filenames ::
  "frame list \<Rightarrow> string list \<Rightarrow> real \<Rightarrow> sync_outcome \<times> frame list" where
  "sync_json_pcd_filenames json listing cutoff =
     (let data = json;
          pcd_files = filter (\<lambda>f. endswith (lower f) ''.pcd'') listing
      in if length data \<noteq> length pcd_files then (Count_mismatch, json)
         else
           let basenames = map stem pcd_files in
           case match_records data basenames cutoff of
             Inl out \<Rightarrow> (out, json)
           | Inr new_files \<Rightarrow>
               let data1 = map (\<lambda>(r, new_fn). r\<lparr>File := Some new_fn\<rparr>) (zip data new_files);
                   data2 = sort_key (\<lambda>r. stem (the (File r))) data1
               in (Sync_complete, data2))"

section \<open>Loading the cloud of the current record\<close>

definition find_pcd :: "editor \<Rightarrow> string \<Rightarrow> py_error + string option" where
  "find_pcd s img =
     (let base = stem img;
          cands = filter (\<lambda>f. endswith f ''.pcd'') (pcd_dir s);
          pref = ''cloud_'' @ base @ ''_''
      in case find (\<lambda>f. startswith f pref) cands of
           Some f \<Rightarrow> Inr (Some f)
         | None \<Rightarrow>
             (case get_close_matches base (map stem cands) 1 0.6 of
                Inl e \<Rightarrow> Inl e
              | Inr [] \<Rightarrow> Inr None
              | Inr (m # _) \<Rightarrow> Inr (Some (m @ ''.pcd''))))"

text \<open>
  \<^verbatim>\<open>_load_cloud\<close> replaces \<^verbatim>\<open>self.pts\<close> by the points the reader returns for the
  file; \<open>read_point_cloud\<close> stands for the reader. When no file is found,
  \<^verbatim>\<open>os.path.join(self.pcd_dir, None)\<close> raises TypeError.
\<close>

definition load_cloud :: "(string \<Rightarrow> point list) \<Rightarrow> editor \<Rightarrow> outcome" where
  "load_cloud read_point_cloud s =
     (if \<not> frame_i s < length (data s) then Raised IndexError s
      else
        let img = file_or_empty (data s ! frame_i s) in
        case (if endswith img ''.pcd'' then Inr (Some img) else find_pcd s img) of
          Inl e \<Rightarrow> Raised e s
        | Inr None \<Rightarrow> Raised TypeError s
        | Inr (Some pcd) \<Rightarrow> Done (s\<lparr>pts := read_point_cloud pcd\<rparr>))"

text \<open>
  \<^verbatim>\<open>_draw_all\<close> rebuilds the display from the store and writes nothing to it. It
  goes through the labels of the current record in their order. For each label it
  unpacks the box, which raises ValueError when there are fewer than seven parameters,
  computes the corners and calls \<^verbatim>\<open>_inside\<close> on them, which builds the Delaunay
  triangulation of the eight corners. \<^verbatim>\<open>scipy.spatial.Delaunay\<close> raises QhullError
  when its points span no volume. The corners are the points
  \<open>(\<plusminus>w/2, \<plusminus>h/2, \<plusminus>d/2)\<close>, rotated and moved, so they lie in one plane exactly when
  one of the extents \<open>w\<close>, \<open>h\<close>, \<open>d\<close> is 0 (lemma \<open>flat_box_coplanar\<close> below).
  Qhull also refuses corners that are flat only up to the rounding of floats; the
  model has exact corners. The first label that fails ends the method.
\<close>

definition flat_box :: "real list \<Rightarrow> bool" where
  "flat_box b \<longleftrightarrow> b ! 3 = 0 \<or> b ! 4 = 0 \<or> b ! 5 = 0"

fun draw_labels :: "label list \<Rightarrow> py_error option" where
  "draw_labels [] = None"
| "draw_labels (lab # rest) =
     (if length (BoundingBoxes lab) < 7 then Some ValueError
      else if flat_box (BoundingBoxes lab) then Some QhullError
      else draw_labels rest)"

definition draw_all :: "editor \<Rightarrow> outcome" where
  "draw_all s =
     (if \<not> frame_i s < length (data s) then Raised IndexError s
      else case draw_labels (cur_labels s) of
             Some e \<Rightarrow> Raised e s
           | None \<Rightarrow> Done s)"

section \<open>Bounding-box helpers\<close>

text \<open>
  \<^verbatim>\<open>_bbox_params\<close> is \<^verbatim>\<open>self.data[self.i]['Labels'][idx]['BoundingBoxes']\<close>: an
  index out of range raises IndexError, a record without the key \<^verbatim>\<open>Labels\<close> KeyError.
\<close>

definition bbox_params :: "editor \<Rightarrow> nat \<Rightarrow> py_error + real list" where
  "bbox_params s idx =
     (if \<not> frame_i s < length (data s) then Inl IndexError
      else case Labels (data s ! frame_i s) of
             None \<Rightarrow> Inl KeyError
           | Some labs \<Rightarrow>
               if idx < length labs then Inr (BoundingBoxes (labs ! idx))
               else Inl IndexError)"

definition set_bbox_params :: "editor \<Rightarrow> nat \<Rightarrow> real list \<Rightarrow> outcome" where
  "set_bbox_params s idx params =
     (if \<not> frame_i s < length (data s) then Raised IndexError s
      else case Labels (data s ! frame_i s) of
             None \<Rightarrow> Raised KeyError s
           | Some labs \<Rightarrow>
               if idx < length labs
               then Done (set_cur_labels s (labs[idx := (labs ! idx)\<lparr>BoundingBoxes := params\<rparr>]))
               else Raised IndexError s)"

section \<open>Rectangle edits\<close>

text \<open>
  A rectangle of a 2-D view, as the toolkit reports it: position and size.
\<close>

record roi =
  roi_pos :: "real \<times> real"
  roi_size :: "real \<times> real"

text \<open>
  \<^verbatim>\<open>_roi_moved\<close>: the first seven parameters are unpacked (ValueError when there are
  fewer), the tail is kept, the four parameters of the view's two axes are overwritten,
  the list is written back and the display is redrawn.
\<close>

definition roi_moved :: "editor \<Rightarrow> roi \<Rightarrow> nat \<Rightarrow> nat \<times> nat \<Rightarrow> outcome" where
  "roi_moved s r label_idx axes =
     (let (px, py) = roi_pos r; (sx, sy) = roi_size r in
      case bbox_params s label_idx of
        Inl e \<Rightarrow> Raised e s
      | Inr full \<Rightarrow>
          (case take 7 full of
             [cx, cy, cz, w, h, d, yaw] \<Rightarrow>
               let tail = drop 7 full;
                   params =
                     (if axes = (0, 1) then
                        [px + sx * 0.5, py + sy * 0.5, cz, sx, sy, d, yaw]
                      else if axes = (0, 2) then
                        [px + sx * 0.5, cy, py + sy * 0.5, sx, h, sy, yaw]
                      else
                        [cx, px + sx * 0.5, py + sy * 0.5, w, sx, sy, yaw])
               in (case set_bbox_params s label_idx (params @ tail) of
                     Raised e s1 \<Rightarrow> Raised e s1
                   | Done s1 \<Rightarrow> draw_all s1)
           | _ \<Rightarrow> Raised ValueError s))"

section \<open>Rotation control and label selector\<close>

text \<open>
  The slider is made with \<^verbatim>\<open>setRange(0, 360)\<close>; \<^verbatim>\<open>setValue\<close> brings its argument
  into that range.
\<close>

definition set_value :: "int \<Rightarrow> int" where
  "set_value v = max 0 (min 360 v)"

text \<open>
  \<^verbatim>\<open>_sync_slider\<close> sets the slider to \<^verbatim>\<open>int(math.degrees(yaw) % 360)\<close> with its
  signals blocked, so that no write-back follows. When the product in
  \<^verbatim>\<open>math.degrees\<close> overflows, the remainder is not a number and \<^verbatim>\<open>int\<close> raises
  ValueError.
\<close>

definition sync_slider :: "editor \<Rightarrow> outcome" where
  "sync_slider s =
     (if \<not> frame_i s < length (data s) then Raised IndexError s
      else
        let idx = combo s; labs = cur_labels s in
        if 0 \<le> idx \<and> idx < int (length labs) then
          let box = BoundingBoxes (labs ! nat idx) in
          if length box \<le> 6 then Raised IndexError s
          else
            let yaw = box ! 6 in
            if overflows (yaw * radToDeg) then Raised ValueError s
            else Done (s\<lparr>rot := set_value (py_int (float_mod (degrees yaw) 360))\<rparr>)
        else Done s)"

text \<open>
  \<^verbatim>\<open>_rot_bbox\<close> is connected to the slider's \<^verbatim>\<open>valueChanged\<close>; \<open>deg\<close> is the
  slider's value, a whole number between 0 and 360, which is a double as it is.
\<close>

definition rot_bbox :: "editor \<Rightarrow> int \<Rightarrow> outcome" where
  "rot_bbox s deg =
     (if \<not> frame_i s < length (data s) then Raised IndexError s
      else
        let idx = combo s; labs = cur_labels s in
        if 0 \<le> idx \<and> idx < int (length labs) then
          let lab = labs ! nat idx; box = BoundingBoxes lab in
          if length box \<le> 6 then Raised IndexError s
          else draw_all (set_cur_labels s
                 (labs[nat idx := lab\<lparr>BoundingBoxes := box[6 := radians (of_int deg)]\<rparr>]))
        else Done s)"

text \<open>
  Choosing an entry of the selector emits \<^verbatim>\<open>currentIndexChanged\<close>, which is
  connected to \<^verbatim>\<open>_sync_slider\<close>.
\<close>

definition current_index_changed :: "editor \<Rightarrow> int \<Rightarrow> outcome" where
  "current_index_changed s j = sync_slider (s\<lparr>combo := j\<rparr>)"

text \<open>
  \<^verbatim>\<open>_refresh\<close>: load the cloud, redraw, fill the selector with the class names of
  the current record (its current index is then 0, or \<open>-1\<close> when there is no label)
  and set the slider.
\<close>

definition refresh :: "(string \<Rightarrow> point list) \<Rightarrow> editor \<Rightarrow> outcome" where
  "refresh read_point_cloud s =
     (case load_cloud read_point_cloud s of
        Raised e s1 \<Rightarrow> Raised e s1
      | Done s1 \<Rightarrow>
          (case draw_all s1 of
             Raised e s2 \<Rightarrow> Raised e s2
           | Done s2 \<Rightarrow>
               sync_slider (s2\<lparr>combo := (if cur_labels s2 = [] then - 1 else 0)\<rparr>)))"

definition goto :: "(string \<Rightarrow> point list) \<Rightarrow> editor \<Rightarrow> int \<Rightarrow> outcome" where
  "goto read_point_cloud s idx =
     (if 0 \<le> idx \<and> idx < int (length (data s))
      then refresh read_point_cloud (s\<lparr>frame_i := nat idx\<rparr>)
      else Done s)"

section \<open>Rename, delete, add\<close>

text \<open>
  What the user answers in a dialog is an argument of the model: \<open>dialog\<close> is the
  text and the OK flag of the input dialog, \<open>line_edit\<close> the text of the selector's
  line edit, \<open>yes\<close> the answer to the question before deleting.
\<close>

definition rename_label :: "editor \<Rightarrow> bool \<Rightarrow> string \<times> bool \<Rightarrow> string \<Rightarrow> outcome" where
  "rename_label s auto_prompt dialog line_edit =
     (if \<not> frame_i s < length (data s) then Raised IndexError s
      else
        let idx = combo s; labs = cur_labels s in
        if \<not> (0 \<le> idx \<and> idx < int (length labs)) then Done s
        else if auto_prompt \<and> \<not> snd dialog then Done s
        else
          let new_txt = strip (if auto_prompt then fst dialog else line_edit) in
          if new_txt = [] \<or> new_txt = Class (labs ! nat idx) then Done s
          else draw_all (set_cur_labels s
                 (labs[nat idx := (labs ! nat idx)\<lparr>Class := new_txt\<rparr>])))"

text \<open>
  The class body defines \<^verbatim>\<open>_delete_label\<close> twice; the second definition replaces
  the first and is the one modelled. \<^verbatim>\<open>labs.pop(idx)\<close> removes the element at
  \<open>idx\<close>.
\<close>

definition delete_label :: "(string \<Rightarrow> point list) \<Rightarrow> editor \<Rightarrow> bool \<Rightarrow> outcome" where
  "delete_label read_point_cloud s yes =
     (if \<not> frame_i s < length (data s) then Raised IndexError s
      else
        let idx = combo s; labs = cur_labels s in
        if 0 \<le> idx \<and> idx < int (length labs) then
          if yes then
            refresh read_point_cloud
              (set_cur_labels s (take (nat idx) labs @ drop (Suc (nat idx)) labs))
          else Done s
        else Done s)"

definition mean0 :: "point list \<Rightarrow> point" where
  \<comment> \<open>\<^verbatim>\<open>pts.mean(0)\<close> of a cloud that is not empty\<close>
  "mean0 ps =
     (sum_list (map (\<lambda>(x, y, z). x) ps) / real (length ps),
      sum_list (map (\<lambda>(x, y, z). y) ps) / real (length ps),
      sum_list (map (\<lambda>(x, y, z). z) ps) / real (length ps))"

text \<open>
  \<^verbatim>\<open>_add_label\<close>: \<^verbatim>\<open>setdefault('Labels', [])\<close> stores an empty list in a record
  without the key, also when the dialog is cancelled afterwards.
\<close>

definition add_label :: "(string \<Rightarrow> point list) \<Rightarrow> editor \<Rightarrow> string \<times> bool \<Rightarrow> outcome" where
  "add_label read_point_cloud s dialog =
     (if \<not> frame_i s < length (data s) then Raised IndexError s
      else
        let lbls = cur_labels s;
            s1 = set_cur_labels s lbls;
            (txt, ok) = dialog
        in if \<not> ok \<or> strip txt = [] then Done s1
           else
             let (cx, cy, cz) = (if pts s1 \<noteq> [] then mean0 (pts s1) else (0, 0, 0));
                 s2 = set_cur_labels s1
                        (lbls @ [\<lparr>Class = strip txt,
                                  BoundingBoxes = [cx, cy, cz, 1, 1, 1, 0, 0, 0]\<rparr>])
             in case refresh read_point_cloud s2 of
                  Raised e s3 \<Rightarrow> Raised e s3
                | Done s3 \<Rightarrow> current_index_changed s3 (int (length (cur_labels s3)) - 1))"

section \<open>Box corners\<close>

text \<open>
  \<^verbatim>\<open>_corners\<close>: the rows of \<^verbatim>\<open>loc\<close> are multiplied by the transpose of the
  rotation matrix and the centre is added to each of them. Entry \<open>j\<close> of a row \<open>p\<close>
  times the transpose of \<open>R\<close> is the product of \<open>p\<close> and row \<open>j\<close> of \<open>R\<close>.
\<close>

definition dot3 :: "point \<Rightarrow> point \<Rightarrow> real" where
  "dot3 p q = (case p of (p0, p1, p2) \<Rightarrow> case q of (q0, q1, q2) \<Rightarrow> p0 * q0 + p1 * q1 + p2 * q2)"

definition row_times_transpose :: "point \<Rightarrow> point \<times> point \<times> point \<Rightarrow> point" where
  "row_times_transpose p R = (case R of (r0, r1, r2) \<Rightarrow> (dot3 p r0, dot3 p r1, dot3 p r2))"

definition add3 :: "point \<Rightarrow> point \<Rightarrow> point" where
  "add3 p q = (case p of (p0, p1, p2) \<Rightarrow> case q of (q0, q1, q2) \<Rightarrow> (p0 + q0, p1 + q1, p2 + q2))"

definition corners :: "real \<Rightarrow> real \<Rightarrow> real \<Rightarrow> real \<Rightarrow> real \<Rightarrow> real \<Rightarrow> real \<Rightarrow> point list" where
  "corners cx cy cz w h d y =
     (let sx = w / 2; sy = h / 2; sz = d / 2;
          loc = [( sx,  sy,  sz), ( sx, - sy,  sz), (- sx, - sy,  sz), (- sx,  sy,  sz),
                 ( sx,  sy, - sz), ( sx, - sy, - sz), (- sx, - sy, - sz), (- sx,  sy, - sz)];
          c = cos y; s = sin y
      in map (\<lambda>p. add3 (row_times_transpose p ((c, - s, 0), (s, c, 0), (0, 0, 1)))
                      (cx, cy, cz)) loc)"

section \<open>Positive extents\<close>

text \<open>
  The invariant of the data model: every stored box has its seven parameters and
  positive extents \<open>w\<close>, \<open>h\<close>, \<open>d\<close> (the parameters 3, 4 and 5).
\<close>

definition box_ok :: "real list \<Rightarrow> bool" where
  "box_ok b \<longleftrightarrow> 7 \<le> length b \<and> 0 < b ! 3 \<and> 0 < b ! 4 \<and> 0 < b ! 5"

definition store_ok :: "editor \<Rightarrow> bool" where
  "store_ok s \<longleftrightarrow>
     list_all (\<lambda>fr. list_all (\<lambda>lab. box_ok (BoundingBoxes lab)) (labels_of fr)) (data s)"

text \<open>
  The gestures that reach the store, with what the user and the toolkit supply, and
  the method each of them runs.
\<close>

datatype action =
  Roi_moved roi nat "nat \<times> nat"
| Rot_bbox int
| Current_index_changed int
| Rename_label bool "string \<times> bool" string
| Delete_label bool
| Add_label "string \<times> bool"
| Goto int

fun perform :: "(string \<Rightarrow> point list) \<Rightarrow> editor \<Rightarrow> action \<Rightarrow> outcome" where
  "perform rd s (Roi_moved r label_idx axes) = roi_moved s r label_idx axes"
| "perform rd s (Rot_bbox deg) = rot_bbox s deg"
| "perform rd s (Current_index_changed j) = current_index_changed s j"
| "perform rd s (Rename_label auto_prompt dialog line_edit) =
     rename_label s auto_prompt dialog line_edit"
| "perform rd s (Delete_label yes) = delete_label rd s yes"
| "perform rd s (Add_label dialog) = add_label rd s dialog"
| "perform rd s (Goto idx) = goto rd s idx"

fun positive_size :: "action \<Rightarrow> bool" where
  "positive_size (Roi_moved r label_idx axes) \<longleftrightarrow> 0 < fst (roi_size r) \<and> 0 < snd (roi_size r)"
| "positive_size _ \<longleftrightarrow> True"

section \<open>Notions used in the proofs\<close>

text \<open>
  \<open>seg xs lo hi\<close> is the slice \<^verbatim>\<open>xs[lo:hi]\<close>. A region of the queue is in range
  when its bounds are ordered and lie within the two sequences; two sequences agree on
  a region when their slices are equal. \<open>total\<close> adds up the sizes of matching
  blocks; \<open>cap_a\<close>, \<open>cap_b\<close> and \<open>cap_m\<close> bound what the regions of a queue can
  still contribute: the lengths of their slices of \<open>a\<close>, of \<open>b\<close>, and the sizes of
  the intersections of the slices as multisets.
\<close>

definition seg :: "'a list \<Rightarrow> nat \<Rightarrow> nat \<Rightarrow> 'a list" where
  "seg xs lo hi = take (hi - lo) (drop lo xs)"

definition region_ok :: "string \<Rightarrow> string \<Rightarrow> region \<Rightarrow> bool" where
  "region_ok a b q \<longleftrightarrow>
     (case q of (alo, ahi, blo, bhi) \<Rightarrow> alo \<le> ahi \<and> ahi \<le> length a \<and> blo \<le> bhi \<and> bhi \<le> length b)"

definition same_region :: "string \<Rightarrow> string \<Rightarrow> region \<Rightarrow> bool" where
  "same_region a b q \<longleftrightarrow> (case q of (alo, ahi, blo, bhi) \<Rightarrow> seg a alo ahi = seg b blo bhi)"

definition total :: "match list \<Rightarrow> nat" where
  "total bs = sum_list (map (\<lambda>(i, j, k). k) bs)"

definition cap_a :: "region list \<Rightarrow> nat" where
  "cap_a qs = sum_list (map (\<lambda>(alo, ahi, blo, bhi). ahi - alo) qs)"

definition cap_b :: "region list \<Rightarrow> nat" where
  "cap_b qs = sum_list (map (\<lambda>(alo, ahi, blo, bhi). bhi - blo) qs)"

definition cap_m :: "string \<Rightarrow> string \<Rightarrow> region list \<Rightarrow> nat" where
  "cap_m a b qs =
     sum_list (map (\<lambda>(alo, ahi, blo, bhi).
        size (mset (seg a alo ahi) \<inter># mset (seg b blo bhi))) qs)"

text \<open>
  \<open>runlen w i\<close> is the number of consecutive elements of \<open>w\<close> ending at \<open>i\<close> that
  are not popular, \<open>kval old j\<close> the value the main loop of
  \<^verbatim>\<open>find_longest_match\<close> writes for \<open>j\<close>, and \<open>diag_inv\<close> the invariant of that loop
  when a sequence is compared with itself: the best match lies on the diagonal and is
  at least as long as every run met so far.
\<close>

fun runlen :: "string \<Rightarrow> nat \<Rightarrow> nat" where
  "runlen w 0 = (if b2j w (w ! 0) = [] then 0 else 1)"
| "runlen w (Suc i) = (if b2j w (w ! Suc i) = [] then 0 else Suc (runlen w i))"

definition kval :: "(nat \<Rightarrow> nat) \<Rightarrow> nat \<Rightarrow> nat" where
  "kval old j = (if j = 0 then 0 else old (j - 1)) + 1"

definition diag_inv :: "string \<Rightarrow> nat \<Rightarrow> (nat \<Rightarrow> nat) \<times> match \<Rightarrow> bool" where
  "diag_inv w i st \<longleftrightarrow>
     (case st of (f, besti, bestj, bestsize) \<Rightarrow>
        besti = bestj \<and>
        (\<forall>j. f j \<le> (if j < length w then runlen w j else 0)) \<and>
        (\<forall>j. f j \<le> (if i = 0 then 0 else runlen w (i - 1))) \<and>
        (0 < i \<longrightarrow> f (i - 1) = runlen w (i - 1)) \<and>
        (\<forall>i' < i. runlen w i' \<le> bestsize))"

text \<open>A name has a proper stem when some character after its last slash is not a dot.\<close>

definition named :: "string \<Rightarrow> bool" where
  "named m \<longleftrightarrow> (\<exists>k. rfind m CHR ''/'' < int k \<and> k < length m \<and> m ! k \<noteq> CHR ''.'')"

text \<open>
  Points are coplanar when they satisfy one equation \<open>a * x + b * y + c * z = k\<close>
  whose coefficients \<open>a\<close>, \<open>b\<close>, \<open>c\<close> are not all zero.
\<close>

definition coplanar :: "point list \<Rightarrow> bool" where
  "coplanar ps \<longleftrightarrow>
     (\<exists>a b c k. (a, b, c) \<noteq> (0, 0, 0) \<and> (\<forall>(x, y, z) \<in> set ps. a * x + b * y + c * z = k))"

section \<open>Facts about the similarity ratio\<close>

text \<open>
  The matching blocks lie in disjoint parts of both sequences and each block is a run
  of equal elements. So their total size is at most the length of either sequence and
  at most the size of the intersection of the two sequences as multisets, and when it
  equals both lengths the sequences are equal.
\<close>

lemma seg_append:
  "lo \<le> mid \<Longrightarrow> mid \<le> hi \<Longrightarrow> seg xs lo hi = seg xs lo mid @ seg xs mid hi"
proof -
  assume "lo \<le> mid" "mid \<le> hi"
  then have "hi - lo = (mid - lo) + (hi - mid)" by simp
  then have "take (hi - lo) (drop lo xs) =
      take (mid - lo) (drop lo xs) @ take (hi - mid) (drop (mid - lo) (drop lo xs))"
    by (simp only: take_add)
  then show ?thesis using \<open>lo \<le> mid\<close> by (simp add: seg_def)
qed

lemma seg_empty [simp]: "seg xs lo lo = []"
  by (simp add: seg_def)

lemma length_seg: "hi \<le> length xs \<Longrightarrow> length (seg xs lo hi) = hi - lo"
  by (simp add: seg_def)

lemma seg_whole [simp]: "seg xs 0 (length xs) = xs"
  by (simp add: seg_def)

lemma seg_eq_nth:
  assumes "hi \<le> length a" and "hi' \<le> length b" and "hi - lo = hi' - lo'"
    and "\<And>t. t < hi - lo \<Longrightarrow> a ! (lo + t) = b ! (lo' + t)"
  shows "seg a lo hi = seg b lo' hi'"
proof (rule nth_equalityI)
  show "length (seg a lo hi) = length (seg b lo' hi')"
    using assms(1-3) by (simp add: length_seg)
  fix t assume "t < length (seg a lo hi)"
  then have t: "t < hi - lo" using assms(1) by (simp add: length_seg)
  then show "seg a lo hi ! t = seg b lo' hi' ! t"
    using assms by (simp add: seg_def)
qed

lemma inter_mset_three:
  "size (X \<inter># Y) + size C + size (X' \<inter># Y') \<le> size ((X + C + X') \<inter># (Y + C + Y'))"
proof -
  have "(X \<inter># Y) + C + (X' \<inter># Y') \<subseteq># X + C + X'"
    by (intro mset_subset_eq_mono_add) simp_all
  moreover have "(X \<inter># Y) + C + (X' \<inter># Y') \<subseteq># Y + C + Y'"
    by (intro mset_subset_eq_mono_add) simp_all
  ultimately have "(X \<inter># Y) + C + (X' \<inter># Y') \<subseteq># (X + C + X') \<inter># (Y + C + Y')"
    by simp
  from size_mset_mono[OF this] show ?thesis by simp
qed

text \<open>One step of the loop on a region with a match of positive size.\<close>

lemma gmb_step:
  assumes ok: "region_ok a b (alo, ahi, blo, bhi)"
    and flm: "find_longest_match a b alo ahi blo bhi = (i, j, k)" and k: "k \<noteq> 0"
  defines "new \<equiv> (if i + k < ahi \<and> j + k < bhi then [(i + k, ahi, j + k, bhi)] else []) @
                  (if alo < i \<and> blo < j then [(alo, i, blo, j)] else [])"
  shows "\<forall>q \<in> set new. region_ok a b q"
    and "k + cap_a new \<le> ahi - alo"
    and "k + cap_b new \<le> bhi - blo"
    and "k + cap_m a b new \<le> size (mset (seg a alo ahi) \<inter># mset (seg b blo bhi))"
    and "k + cap_a new = ahi - alo \<Longrightarrow> k + cap_b new = bhi - blo \<Longrightarrow>
         \<forall>q \<in> set new. same_region a b q \<Longrightarrow> seg a alo ahi = seg b blo bhi"
proof -
  have bnd: "alo \<le> i" "i + k \<le> ahi" "blo \<le> j" "j + k \<le> bhi"
    using find_longest_match_bounds[OF flm k] by simp_all
  have rng: "alo \<le> ahi" "ahi \<le> length a" "blo \<le> bhi" "bhi \<le> length b"
    using ok by (simp_all add: region_ok_def)
  show "\<forall>q \<in> set new. region_ok a b q"
    using bnd rng by (auto simp: new_def region_ok_def)
  show "k + cap_a new \<le> ahi - alo"
    using bnd by (auto simp: new_def cap_a_def)
  show "k + cap_b new \<le> bhi - blo"
    using bnd by (auto simp: new_def cap_b_def)
  have blk: "seg a i (i + k) = seg b j (j + k)"
    using find_longest_match_eq[OF flm] bnd rng by (intro seg_eq_nth) auto
  have sa: "seg a alo ahi = seg a alo i @ seg a i (i + k) @ seg a (i + k) ahi"
    using bnd seg_append[of alo i ahi a] seg_append[of i "i + k" ahi a] by simp
  have sb: "seg b blo bhi = seg b blo j @ seg b j (j + k) @ seg b (j + k) bhi"
    using bnd seg_append[of blo j bhi b] seg_append[of j "j + k" bhi b] by simp
  have lk: "length (seg b j (j + k)) = k"
    using bnd rng by (simp add: length_seg)
  let ?L = "size (mset (seg a alo i) \<inter># mset (seg b blo j))"
  let ?R = "size (mset (seg a (i + k) ahi) \<inter># mset (seg b (j + k) bhi))"
  have "cap_m a b new \<le> ?R + ?L"
    by (simp add: new_def cap_m_def)
  moreover have "?L + k + ?R \<le> size (mset (seg a alo ahi) \<inter># mset (seg b blo bhi))"
    using inter_mset_three[of "mset (seg a alo i)" "mset (seg b blo j)" "mset (seg b j (j + k))"
        "mset (seg a (i + k) ahi)" "mset (seg b (j + k) bhi)"]
    by (simp add: sa sb blk lk add.assoc)
  ultimately show "k + cap_m a b new \<le> size (mset (seg a alo ahi) \<inter># mset (seg b blo bhi))"
    by linarith
  assume ta: "k + cap_a new = ahi - alo" and tb: "k + cap_b new = bhi - blo"
    and same: "\<forall>q \<in> set new. same_region a b q"
  have left: "seg a alo i = seg b blo j"
  proof (cases "alo < i \<and> blo < j")
    case True
    then show ?thesis using same by (simp add: new_def same_region_def)
  next
    case False
    then have "i = alo \<and> j = blo"
      using ta tb bnd by (auto simp: new_def cap_a_def cap_b_def split: if_splits)
    then show ?thesis by simp
  qed
  have right: "seg a (i + k) ahi = seg b (j + k) bhi"
  proof (cases "i + k < ahi \<and> j + k < bhi")
    case True
    then show ?thesis using same by (simp add: new_def same_region_def)
  next
    case False
    then have "i + k = ahi \<and> j + k = bhi"
      using ta tb bnd by (auto simp: new_def cap_a_def cap_b_def split: if_splits)
    then show ?thesis by simp
  qed
  show "seg a alo ahi = seg b blo bhi"
    by (simp only: sa sb left right blk)
qed

lemma total_append [simp]: "total (bs @ [(i, j, k)]) = total bs + k"
  by (simp add: total_def)

lemma cap_append [simp]:
  "cap_a (qs @ rs) = cap_a qs + cap_a rs"
  "cap_b (qs @ rs) = cap_b qs + cap_b rs"
  "cap_m a b (qs @ rs) = cap_m a b qs + cap_m a b rs"
  by (simp_all add: cap_a_def cap_b_def cap_m_def)

lemma cap_Nil [simp]: "cap_a [] = 0" "cap_b [] = 0" "cap_m a b [] = 0"
  by (simp_all add: cap_a_def cap_b_def cap_m_def)

lemma cap_Cons [simp]:
  "cap_a ((alo, ahi, blo, bhi) # qs) = (ahi - alo) + cap_a qs"
  "cap_b ((alo, ahi, blo, bhi) # qs) = (bhi - blo) + cap_b qs"
  "cap_m a b ((alo, ahi, blo, bhi) # qs) =
     size (mset (seg a alo ahi) \<inter># mset (seg b blo bhi)) + cap_m a b qs"
  by (simp_all add: cap_a_def cap_b_def cap_m_def)

lemma gmb_loop_total:
  assumes "\<forall>q \<in> set queue. region_ok a b q"
  shows "total (gmb_loop a b queue blocks) \<le> total blocks + cap_a queue \<and>
         total (gmb_loop a b queue blocks) \<le> total blocks + cap_b queue \<and>
         total (gmb_loop a b queue blocks) \<le> total blocks + cap_m a b queue \<and>
         (total (gmb_loop a b queue blocks) = total blocks + cap_a queue \<longrightarrow>
          total (gmb_loop a b queue blocks) = total blocks + cap_b queue \<longrightarrow>
          (\<forall>q \<in> set queue. same_region a b q))"
  using assms
proof (induction a b queue blocks rule: gmb_loop.induct)
  case (1 a b blocks)
  show ?case by (simp add: cap_a_def cap_b_def cap_m_def)
next
  case (2 a b alo ahi blo bhi queue blocks)
  obtain i j k where flm: "find_longest_match a b alo ahi blo bhi = (i, j, k)"
    by (cases "find_longest_match a b alo ahi blo bhi") auto
  have ok: "region_ok a b (alo, ahi, blo, bhi)" and rest: "\<forall>q \<in> set queue. region_ok a b q"
    using "2.prems" by simp_all
  show ?case
  proof (cases "k = 0")
    case True
    let ?t = "total (gmb_loop a b queue blocks)"
    have res: "gmb_loop a b ((alo, ahi, blo, bhi) # queue) blocks = gmb_loop a b queue blocks"
      using flm True by (simp add: gmb_loop.simps(2))
    have IH: "?t \<le> total blocks + cap_a queue \<and> ?t \<le> total blocks + cap_b queue \<and>
              ?t \<le> total blocks + cap_m a b queue \<and>
              (?t = total blocks + cap_a queue \<longrightarrow> ?t = total blocks + cap_b queue \<longrightarrow>
                 (\<forall>q \<in> set queue. same_region a b q))"
      using "2.IH"(2)[of i "(j, k)" j k] flm True rest by simp
    have rng: "alo \<le> ahi" "blo \<le> bhi"
      using ok by (simp_all add: region_ok_def)
    have "same_region a b (alo, ahi, blo, bhi) \<and> (\<forall>q \<in> set queue. same_region a b q)"
      if "?t = total blocks + ((ahi - alo) + cap_a queue)"
        and "?t = total blocks + ((bhi - blo) + cap_b queue)"
    proof -
      have "ahi = alo" "bhi = blo" "?t = total blocks + cap_a queue"
        "?t = total blocks + cap_b queue"
        using that IH rng by linarith+
      then show ?thesis using IH by (simp add: same_region_def)
    qed
    then show ?thesis
      unfolding res using IH by auto
  next
    case False
    define new where "new = (if i + k < ahi \<and> j + k < bhi then [(i + k, ahi, j + k, bhi)] else []) @
                  (if alo < i \<and> blo < j then [(alo, i, blo, j)] else [])"
    note st = gmb_step[OF ok flm False, folded new_def]
    let ?t = "total (gmb_loop a b (new @ queue) (blocks @ [(i, j, k)]))"
    have res: "gmb_loop a b ((alo, ahi, blo, bhi) # queue) blocks =
               gmb_loop a b (new @ queue) (blocks @ [(i, j, k)])"
      using flm False by (simp add: gmb_loop.simps(2) new_def)
    have "\<forall>q \<in> set (new @ queue). region_ok a b q"
      using st(1) rest by auto
    then have IH: "?t \<le> total blocks + k + (cap_a new + cap_a queue) \<and>
              ?t \<le> total blocks + k + (cap_b new + cap_b queue) \<and>
              ?t \<le> total blocks + k + (cap_m a b new + cap_m a b queue) \<and>
              (?t = total blocks + k + (cap_a new + cap_a queue) \<longrightarrow>
               ?t = total blocks + k + (cap_b new + cap_b queue) \<longrightarrow>
                 (\<forall>q \<in> set (new @ queue). same_region a b q))"
      using "2.IH"(1)[of i "(j, k)" j k] flm False by (simp add: new_def)
    have "same_region a b (alo, ahi, blo, bhi) \<and> (\<forall>q \<in> set queue. same_region a b q)"
      if "?t = total blocks + ((ahi - alo) + cap_a queue)"
        and "?t = total blocks + ((bhi - blo) + cap_b queue)"
    proof -
      have ta: "k + cap_a new = ahi - alo" and tb: "k + cap_b new = bhi - blo"
        using that IH st(2,3) by linarith+
      then have "?t = total blocks + k + (cap_a new + cap_a queue)"
        "?t = total blocks + k + (cap_b new + cap_b queue)"
        using that by linarith+
      then have all: "\<forall>q \<in> set (new @ queue). same_region a b q"
        using IH by blast
      then have "seg a alo ahi = seg b blo bhi"
        using st(5)[OF ta tb] by simp
      then show ?thesis using all by (simp add: same_region_def)
    qed
    moreover have "?t \<le> total blocks + ((ahi - alo) + cap_a queue)"
      "?t \<le> total blocks + ((bhi - blo) + cap_b queue)"
      "?t \<le> total blocks + (size (mset (seg a alo ahi) \<inter># mset (seg b blo bhi)) + cap_m a b queue)"
      using IH st(2,3,4) by linarith+
    ultimately show ?thesis
      unfolding res by auto
  qed
qed

lemma matching_total:
  "total (get_matching_blocks a b) \<le> length a"
  "total (get_matching_blocks a b) \<le> length b"
  "total (get_matching_blocks a b) \<le> size (mset a \<inter># mset b)"
  using gmb_loop_total[of "[(0, length a, 0, length b)]" a b "[]"]
  by (simp_all add: get_matching_blocks_def region_ok_def total_def)

lemma matching_total_eq:
  assumes "total (get_matching_blocks a b) = length a"
    and "total (get_matching_blocks a b) = length b"
  shows "a = b"
proof -
  have "same_region a b (0, length a, 0, length b)"
    using gmb_loop_total[of "[(0, length a, 0, length b)]" a b "[]"] assms
    by (simp add: get_matching_blocks_def region_ok_def total_def)
  then show ?thesis by (simp add: same_region_def)
qed

text \<open>
  \<^verbatim>\<open>quick_ratio\<close> counts the intersection of the two sequences as multisets, so it
  and \<^verbatim>\<open>real_quick_ratio\<close> are upper bounds of \<^verbatim>\<open>ratio\<close>, as the library says.
\<close>

lemma quick_loop_inter:
  assumes "\<forall>c. (case avail c of Some n \<Rightarrow> n | None \<Rightarrow> fb c) = int (count B c) - int (count S c)"
  shows "quick_loop fb avail xs m = m + size (mset xs \<inter># (B - S))"
  using assms
proof (induction xs arbitrary: avail S m)
  case Nil
  show ?case by simp
next
  case (Cons x xs)
  define numb where "numb = (case avail x of Some n \<Rightarrow> n | None \<Rightarrow> fb x)"
  have numb: "numb = int (count B x) - int (count S x)"
    using Cons.prems by (simp add: numb_def)
  have inv: "\<forall>c. (case (avail(x \<mapsto> numb - 1)) c of Some n \<Rightarrow> n | None \<Rightarrow> fb c) =
               int (count B c) - int (count (add_mset x S) c)"
    using Cons.prems numb by auto
  have IH: "quick_loop fb (avail(x \<mapsto> numb - 1)) xs m' =
              m' + size (mset xs \<inter># (B - add_mset x S))" for m'
    using Cons.IH[OF inv] .
  have step: "quick_loop fb avail (x # xs) m =
      quick_loop fb (avail(x \<mapsto> numb - 1)) xs (if 0 < numb then m + 1 else m)"
    by (simp add: numb_def Let_def)
  show ?case
  proof (cases "0 < numb")
    case True
    then have "x \<in># B - S"
      using numb by (simp add: in_diff_count)
    then have "mset (x # xs) \<inter># (B - S) = add_mset x (mset xs \<inter># (B - S - {#x#}))"
      by (simp add: inter_add_left2)
    moreover have "B - S - {#x#} = B - add_mset x S"
      by simp
    ultimately show ?thesis
      using True unfolding step IH by simp
  next
    case False
    then have nin: "x \<notin># B - S"
      using numb by (simp add: in_diff_count)
    then have "mset (x # xs) \<inter># (B - S) = mset xs \<inter># (B - S)"
      by (simp add: inter_add_left1)
    moreover have "B - add_mset x S = B - S"
      using nin by (metis diff_single_trivial diff_diff_add_mset add_mset_add_single)
    ultimately show ?thesis
      using False unfolding step IH by simp
  qed
qed

lemma quick_loop_size:
  "quick_loop (\<lambda>elt. int (count_list b elt)) Map.empty a 0 = size (mset a \<inter># mset b)"
  using quick_loop_inter[where avail = Map.empty and fb = "\<lambda>elt. int (count_list b elt)"
      and B = "mset b" and S = "{#}" and xs = a and m = 0]
  by (simp add: count_mset)

lemma calculate_ratio_mono:
  "m \<le> m' \<Longrightarrow> calculate_ratio m l \<le> calculate_ratio m' l"
  by (simp add: calculate_ratio_def divide_right_mono)

lemma ratio_total: "ratio a b = calculate_ratio (total (get_matching_blocks a b)) (length a + length b)"
  by (simp add: ratio_def total_def)

lemma ratio_le_quick_ratio: "ratio a b \<le> quick_ratio a b"
  unfolding ratio_total quick_ratio_def quick_loop_size
  by (intro calculate_ratio_mono matching_total)

lemma ratio_le_real_quick_ratio: "ratio a b \<le> real_quick_ratio a b"
  unfolding ratio_total real_quick_ratio_def
  by (intro calculate_ratio_mono) (simp add: matching_total)

lemma ratio_le_1: "ratio a b \<le> 1"
proof -
  have "2 * total (get_matching_blocks a b) \<le> length a + length b"
    using matching_total(1,2)[of a b] by linarith
  then have "2 * real (total (get_matching_blocks a b)) \<le> real (length a + length b)"
    by (metis of_nat_le_iff of_nat_mult of_nat_numeral)
  then show ?thesis
    by (auto simp: ratio_total calculate_ratio_def divide_le_eq)
qed

lemma ratio_1_same:
  assumes "ratio a b = 1"
  shows "a = b"
proof (cases "length a + length b = 0")
  case True
  then show ?thesis by simp
next
  case False
  then have "2 * real (total (get_matching_blocks a b)) = real (length a + length b)"
    using assms by (simp add: ratio_total calculate_ratio_def)
  then have "2 * total (get_matching_blocks a b) = length a + length b"
    by (metis of_nat_eq_iff of_nat_mult of_nat_numeral)
  then have "total (get_matching_blocks a b) = length a" "total (get_matching_blocks a b) = length b"
    using matching_total(1,2)[of a b] by linarith+
  then show ?thesis by (rule matching_total_eq)
qed

text \<open>
  A sequence compared with itself: the best match of the main loop lies on the
  diagonal, also when popular elements have been dropped from \<^verbatim>\<open>b2j\<close>, because the
  loop visits the diagonal cell of a row before the cells to its right and after the
  diagonal cells of the rows above. The two extension loops then reach both ends.
\<close>

lemma flm_step_kval:
  "flm_step old i j (nf, bi, bj, bs) =
     (if bs < kval old j then (nf(j := kval old j), Suc i - kval old j, Suc j - kval old j, kval old j)
      else (nf(j := kval old j), bi, bj, bs))"
  by (simp add: flm_step_def kval_def Let_def)

lemma fold_flm_step_fst:
  "fst (fold (flm_step old i) js (nf, best)) =
     (\<lambda>j. if j \<in> set js then kval old j else nf j)"
proof (induction js arbitrary: nf best)
  case Nil
  show ?case by simp
next
  case (Cons x js)
  obtain bi bj bs where best: "best = (bi, bj, bs)" by (cases best)
  show ?case
    by (auto simp: best flm_step_kval Cons.IH fun_eq_iff)
qed

lemma b2j_sorted: "sorted_wrt (<) (b2j b c)"
  by (simp add: b2j_def Let_def sorted_wrt_filter)

lemma b2j_self: "i < length w \<Longrightarrow> b2j w (w ! i) \<noteq> [] \<Longrightarrow> i \<in> set (b2j w (w ! i))"
  by (auto simp: b2j_def Let_def split: if_splits)

lemma b2j_filter_all: "filter (\<lambda>j. j < length w) (b2j w c) = b2j w c"
  using b2j_mem[of _ w c] by (simp add: filter_id_conv)

lemma fold_flm_step_diag:
  assumes "sorted_wrt (<) js"
    and "\<forall>j \<in> set js. kval old j \<le> runlen w j \<and> kval old j \<le> runlen w i"
    and "i \<in> set js \<longrightarrow> kval old i = runlen w i"
    and "\<forall>i' < i. runlen w i' \<le> bs"
    and "i \<in> set js \<or> runlen w i \<le> bs"
  shows "\<exists>bi' bs'. snd (fold (flm_step old i) js (nf, (bi, bi, bs))) = (bi', bi', bs') \<and>
           (\<forall>i' \<le> i. runlen w i' \<le> bs')"
  using assms
proof (induction js arbitrary: nf bi bs)
  case Nil
  then show ?case by (auto simp: le_less)
next
  case (Cons j js)
  let ?k = "kval old j"
  have sorted: "sorted_wrt (<) js" and above: "\<forall>x \<in> set js. j < x"
    using Cons.prems(1) by simp_all
  have kle: "\<forall>x \<in> set js. kval old x \<le> runlen w x \<and> kval old x \<le> runlen w i"
    using Cons.prems(2) by simp
  have kd: "i \<in> set js \<longrightarrow> kval old i = runlen w i"
    using Cons.prems(3) by simp
  show ?case
  proof (cases "bs < ?k")
    case True
    have "j = i"
    proof (rule ccontr)
      assume "j \<noteq> i"
      then consider "j < i" | "i < j" by linarith
      then show False
      proof cases
        case 1
        then have "?k \<le> bs" using Cons.prems(2,4) by (meson le_trans list.set_intros(1))
        then show False using True by simp
      next
        case 2
        then have "i \<notin> set (j # js)" using above by auto
        then have "runlen w i \<le> bs" using Cons.prems(5) by simp
        moreover have "?k \<le> runlen w i" using Cons.prems(2) by simp
        ultimately show False using True by simp
      qed
    qed
    then have ki: "?k = runlen w i" using Cons.prems(3) by simp
    have "\<forall>i' < i. runlen w i' \<le> ?k"
      using Cons.prems(4) True by (meson le_trans less_imp_le)
    moreover have "i \<in> set js \<or> runlen w i \<le> ?k"
      using ki by simp
    ultimately have "\<exists>bi' bs'. snd (fold (flm_step old i) js
          (nf(j := ?k), (Suc i - ?k, Suc i - ?k, ?k))) = (bi', bi', bs') \<and>
           (\<forall>i' \<le> i. runlen w i' \<le> bs')"
      using Cons.IH[OF sorted kle kd] by blast
    then show ?thesis
      using True \<open>j = i\<close> by (simp add: flm_step_kval)
  next
    case False
    have "i \<in> set js \<or> runlen w i \<le> bs"
    proof (cases "i = j")
      case True
      then show ?thesis using Cons.prems(3) False by simp
    next
      case False
      then show ?thesis using Cons.prems(5) by auto
    qed
    then have "\<exists>bi' bs'. snd (fold (flm_step old i) js (nf(j := ?k), (bi, bi, bs))) = (bi', bi', bs') \<and>
           (\<forall>i' \<le> i. runlen w i' \<le> bs')"
      using Cons.IH[OF sorted kle kd Cons.prems(4)] by blast
    then show ?thesis
      using False by (simp add: flm_step_kval)
  qed
qed

lemma runlen_pos:
  "b2j w (w ! j) \<noteq> [] \<Longrightarrow> runlen w j = (if j = 0 then 0 else runlen w (j - 1)) + 1"
  by (cases j) simp_all

lemma runlen_zero: "b2j w (w ! j) = [] \<Longrightarrow> runlen w j = 0"
  by (cases j) simp_all

lemma flm_row_diag:
  assumes inv: "diag_inv w i st" and i: "i < length w"
  shows "diag_inv w (Suc i) (flm_row w w 0 (length w) i st)"
proof -
  obtain old bi bj bs where st: "st = (old, bi, bj, bs)" by (cases st) auto
  have bij: "bj = bi"
    and I1: "\<And>j. old j \<le> (if j < length w then runlen w j else 0)"
    and I2: "\<And>j. old j \<le> (if i = 0 then 0 else runlen w (i - 1))"
    and D: "0 < i \<Longrightarrow> old (i - 1) = runlen w (i - 1)"
    and I4: "\<forall>i' < i. runlen w i' \<le> bs"
    using inv by (simp_all add: diag_inv_def st)
  let ?js = "b2j w (w ! i)"
  have row: "flm_row w w 0 (length w) i st = fold (flm_step old i) ?js (\<lambda>_. 0, bi, bi, bs)"
    by (simp add: flm_row_def st bij b2j_filter_all)
  have mem: "j < length w \<and> b2j w (w ! j) \<noteq> []" if "j \<in> set ?js" for j
  proof -
    have "j < length w \<and> w ! j = w ! i" using b2j_mem[OF that] by simp
    moreover have "?js \<noteq> []" using that by auto
    ultimately show ?thesis by simp
  qed
  have k1: "kval old j \<le> runlen w j" if "j \<in> set ?js" for j
  proof (cases "j = 0")
    case True
    then show ?thesis using mem[OF that] by (simp add: kval_def)
  next
    case False
    have "old (j - 1) \<le> runlen w (j - 1)"
      using I1[of "j - 1"] mem[OF that] False by (simp split: if_splits)
    then show ?thesis
      using mem[OF that] False by (simp add: kval_def runlen_pos)
  qed
  have k2: "kval old j \<le> runlen w i" if "j \<in> set ?js" for j
  proof -
    have ne: "?js \<noteq> []" using that by auto
    have "(if j = 0 then 0 else old (j - 1)) \<le> (if i = 0 then 0 else runlen w (i - 1))"
      using I2[of "j - 1"] by (auto split: if_splits)
    then show ?thesis
      using ne by (simp add: kval_def runlen_pos)
  qed
  have k3: "kval old i = runlen w i" if "i \<in> set ?js"
  proof -
    have ne: "?js \<noteq> []" using that by auto
    show ?thesis
      using ne D by (cases "i = 0") (simp_all add: kval_def runlen_pos)
  qed
  have pend: "i \<in> set ?js \<or> runlen w i \<le> bs"
  proof (cases "?js = []")
    case True
    then show ?thesis by (simp add: runlen_zero)
  next
    case False
    then show ?thesis using b2j_self[OF i] by simp
  qed
  obtain bi' bs' where best': "snd (fold (flm_step old i) ?js (\<lambda>_. 0, bi, bi, bs)) = (bi', bi', bs')"
    and I4': "\<forall>i' \<le> i. runlen w i' \<le> bs'"
    using fold_flm_step_diag[OF b2j_sorted, of w "w ! i" old w i bs "\<lambda>_. 0" bi] k1 k2 k3 I4 pend
    by blast
  let ?f = "\<lambda>j. if j \<in> set ?js then kval old j else 0"
  have res: "flm_row w w 0 (length w) i st = (?f, bi', bi', bs')"
    using best' fold_flm_step_fst[of old i ?js "\<lambda>_. 0" "(bi, bi, bs)"]
    by (simp add: row prod_eq_iff)
  have f1: "?f j \<le> (if j < length w then runlen w j else 0)" for j
    using k1[of j] mem[of j] by auto
  have f2: "?f j \<le> runlen w i" for j
    using k2[of j] by auto
  have f3: "?f i = runlen w i"
  proof (cases "i \<in> set ?js")
    case True
    then show ?thesis using k3 by simp
  next
    case False
    then have "?js = []" using b2j_self[OF i] by auto
    then show ?thesis by (simp add: runlen_zero)
  qed
  show ?thesis
    unfolding res diag_inv_def using f1 f2 f3 I4' by (simp add: less_Suc_eq_le)
qed

lemma fold_flm_row_diag:
  "n \<le> length w \<Longrightarrow>
   diag_inv w n (fold (flm_row w w 0 (length w)) [0..<n] (\<lambda>_. 0, 0, 0, 0))"
proof (induction n)
  case 0
  show ?case by (simp add: diag_inv_def)
next
  case (Suc n)
  then show ?case using flm_row_diag[of w n] by simp
qed

lemma extend_left_same: "extend_left w w 0 0 (i, i, k) = (0, 0, k + i)"
proof (induction i arbitrary: k)
  case 0
  show ?case by (subst extend_left.simps) simp
next
  case (Suc i)
  show ?case by (subst extend_left.simps) (simp add: Suc.IH)
qed

lemma extend_right_same: "k \<le> n \<Longrightarrow> extend_right w w n n (0, 0, k) = (0, 0, n)"
proof (induction "n - k" arbitrary: k)
  case 0
  then show ?case by (subst extend_right.simps) simp
next
  case (Suc d)
  then have "extend_right w w n n (0, 0, k + 1) = (0, 0, n)" by simp
  moreover have "k < n" using Suc.hyps(2) by linarith
  ultimately show ?case by (subst extend_right.simps) simp
qed

lemma find_longest_match_same:
  "find_longest_match w w 0 (length w) 0 (length w) = (0, 0, length w)"
proof -
  let ?st = "fold (flm_row w w 0 (length w)) [0..<length w] (\<lambda>_. 0, 0, 0, 0)"
  obtain f bi bj bs where st: "?st = (f, bi, bj, bs)" by (cases ?st) auto
  have "bj = bi"
    using fold_flm_row_diag[of "length w" w] by (simp add: st diag_inv_def)
  moreover have "bi + bs \<le> length w"
    using main_loop_best_ok[of w w 0 0 "length w" "length w"]
    by (cases "bs = 0") (simp_all add: st best_ok_def)
  ultimately show ?thesis
    by (simp add: find_longest_match_def st extend_left_same extend_right_same)
qed

lemma get_matching_blocks_same:
  "get_matching_blocks w w = (if w = [] then [] else [(0, 0, length w)])"
  by (simp add: get_matching_blocks_def gmb_loop.simps(2) find_longest_match_same)

lemma ratio_same: "ratio w w = 1"
  by (simp add: ratio_def get_matching_blocks_same calculate_ratio_def)

lemma ratio_eq_1_iff: "ratio a b = 1 \<longleftrightarrow> a = b"
  using ratio_same ratio_1_same by blast

lemma quick_ratio_same: "quick_ratio w w = 1"
  using ratio_le_quick_ratio[of w w] 
  by (simp add: ratio_same quick_ratio_def quick_loop_size calculate_ratio_def)

lemma real_quick_ratio_same: "real_quick_ratio w w = 1"
  by (simp add: real_quick_ratio_def calculate_ratio_def)

text \<open>
  What \<^verbatim>\<open>get_close_matches\<close> returns for \<open>n = 1\<close>: nothing when no candidate has a
  ratio of at least the cutoff, otherwise the candidate of the largest pair (ratio,
  string); a candidate equal to the word is that candidate.
\<close>

lemma close_filter:
  "filter (\<lambda>x. cutoff \<le> real_quick_ratio x w \<and> cutoff \<le> quick_ratio x w \<and> cutoff \<le> ratio x w) ps
     = filter (\<lambda>x. cutoff \<le> ratio x w) ps"
proof (rule filter_cong[OF refl])
  fix x
  show "(cutoff \<le> real_quick_ratio x w \<and> cutoff \<le> quick_ratio x w \<and> cutoff \<le> ratio x w) =
        (cutoff \<le> ratio x w)"
    using ratio_le_quick_ratio[of x w] ratio_le_real_quick_ratio[of x w] by linarith
qed

lemma sorted_le_last:
  fixes ys :: "('a :: linorder) list"
  shows "sorted ys \<Longrightarrow> y \<in> set ys \<Longrightarrow> y \<le> last ys"
  by (induction ys) auto

lemma take1_rev_sort:
  fixes xs :: "('a :: linorder) list"
  assumes "xs \<noteq> []"
  shows "take 1 (rev (sort xs)) = [Max (set xs)]"
proof -
  let ?ys = "sort xs"
  have ne: "?ys \<noteq> []" using assms by (metis length_0_conv length_sort)
  have "last ?ys \<in> set xs"
    using ne last_in_set[of ?ys] by simp
  moreover have "y \<le> last ?ys" if "y \<in> set xs" for y
    using that sorted_le_last[of ?ys y] by simp
  ultimately have "Max (set xs) = last ?ys"
    by (intro Max_eqI) auto
  moreover have "take 1 (rev ?ys) = [last ?ys]"
    using ne by (cases "rev ?ys") (auto simp: last_rev[symmetric] simp del: last_rev)
  ultimately show ?thesis by simp
qed

lemma get_close_matches_1:
  assumes "0 \<le> cutoff" and "cutoff \<le> 1"
  shows "get_close_matches w ps 1 cutoff =
           Inr (if filter (\<lambda>x. cutoff \<le> ratio x w) ps = [] then []
                else [snd (Max ((\<lambda>x. (ratio x w, x)) ` {x \<in> set ps. cutoff \<le> ratio x w}))])"
proof -
  let ?good = "filter (\<lambda>x. cutoff \<le> ratio x w) ps"
  let ?result = "map (\<lambda>x. (ratio x w, x)) ?good"
  have eq: "get_close_matches w ps 1 cutoff = Inr (map snd (take 1 (rev (sort ?result))))"
    using assms by (simp add: get_close_matches_def close_filter)
  show ?thesis
  proof (cases "?good = []")
    case True
    then show ?thesis unfolding eq by simp
  next
    case False
    then have "take 1 (rev (sort ?result)) = [Max (set ?result)]"
      by (intro take1_rev_sort) simp
    moreover have "set ?result = (\<lambda>x. (ratio x w, x)) ` {x \<in> set ps. cutoff \<le> ratio x w}"
      by auto
    ultimately show ?thesis unfolding eq using False by simp
  qed
qed

lemma get_close_matches_empty:
  assumes "0 \<le> cutoff" and "cutoff \<le> 1" and "\<forall>x \<in> set ps. ratio x w < cutoff"
  shows "get_close_matches w ps 1 cutoff = Inr []"
proof -
  have "filter (\<lambda>x. cutoff \<le> ratio x w) ps = []"
    using assms(3) by (auto simp: filter_empty_conv)
  then show ?thesis unfolding get_close_matches_1[OF assms(1,2)] by simp
qed

lemma get_close_matches_best:
  assumes "0 \<le> cutoff" and "cutoff \<le> 1" and "x0 \<in> set ps" and "cutoff \<le> ratio x0 w"
  shows "\<exists>m. get_close_matches w ps 1 cutoff = Inr [m] \<and> m \<in> set ps \<and> cutoff \<le> ratio m w \<and>
             (\<forall>x \<in> set ps. cutoff \<le> ratio x w \<longrightarrow> (ratio x w, x) \<le> (ratio m w, m))"
proof -
  let ?S = "(\<lambda>x. (ratio x w, x)) ` {x \<in> set ps. cutoff \<le> ratio x w}"
  have fin: "finite ?S" by simp
  have ne: "?S \<noteq> {}" using assms(3,4) by auto
  have "Max ?S \<in> ?S" using Max_in[OF fin ne] .
  then obtain m where m: "m \<in> set ps" "cutoff \<le> ratio m w" "Max ?S = (ratio m w, m)"
    by auto
  have "filter (\<lambda>x. cutoff \<le> ratio x w) ps \<noteq> []"
    using assms(3,4) by (auto simp: filter_empty_conv)
  then have "get_close_matches w ps 1 cutoff = Inr [m]"
    unfolding get_close_matches_1[OF assms(1,2)] by (simp add: m(3))
  moreover have "(ratio x w, x) \<le> (ratio m w, m)" if "x \<in> set ps" "cutoff \<le> ratio x w" for x
  proof -
    have "(ratio x w, x) \<in> ?S" using that by auto
    from Max_ge[OF fin this] show ?thesis by (simp add: m(3))
  qed
  ultimately show ?thesis using m(1,2) by blast
qed

lemma get_close_matches_exact:
  assumes "0 \<le> cutoff" and "cutoff \<le> 1" and "w \<in> set ps"
  shows "get_close_matches w ps 1 cutoff = Inr [w]"
proof -
  have c: "cutoff \<le> ratio w w" using assms(2) by (simp add: ratio_same)
  from get_close_matches_best[OF assms(1,2,3) c]
  obtain m where m: "get_close_matches w ps 1 cutoff = Inr [m]"
    and le: "(ratio w w, w) \<le> (ratio m w, m)"
    using assms(3) c by blast
  have "1 \<le> ratio m w"
    using le by (auto simp: ratio_same less_eq_prod_def)
  then have "ratio m w = 1" using ratio_le_1[of m w] by linarith
  then have "m = w" by (rule ratio_1_same)
  then show ?thesis using m by simp
qed

section \<open>Facts about the arithmetic of floats\<close>



















section \<open>Auxiliary facts about the editor's methods\<close>

lemma take7: "7 \<le> length b \<Longrightarrow> take 7 b = [b ! 0, b ! 1, b ! 2, b ! 3, b ! 4, b ! 5, b ! 6]"
  by (auto simp: eval_nat_numeral Suc_le_length_iff)

lemma state_of_draw_all [simp]: "state_of (draw_all s) = s"
  by (simp add: draw_all_def split: option.splits)

lemma cur_labels_Some:
  "Labels (data s ! frame_i s) = Some labs \<Longrightarrow> cur_labels s = labs"
  by (simp add: cur_labels_def labels_of_def)

lemma data_sync_slider [simp]: "data (state_of (sync_slider s)) = data s"
  by (simp add: sync_slider_def Let_def)

lemma data_load_cloud [simp]: "data (state_of (load_cloud rd s)) = data s"
  by (simp add: load_cloud_def Let_def split: sum.splits option.splits)

lemma frame_i_load_cloud [simp]: "frame_i (state_of (load_cloud rd s)) = frame_i s"
  by (simp add: load_cloud_def Let_def split: sum.splits option.splits)

lemma data_refresh [simp]: "data (state_of (refresh rd s)) = data s"
proof -
  have "data (state_of (refresh rd s)) = data (state_of (load_cloud rd s))"
    by (cases "load_cloud rd s"; cases "draw_all (state_of (load_cloud rd s))")
       (simp_all add: refresh_def draw_all_def split: if_splits option.splits)
  then show ?thesis by simp
qed

lemma frame_i_refresh [simp]: "frame_i (state_of (refresh rd s)) = frame_i s"
proof -
  have "frame_i (state_of (refresh rd s)) = frame_i (state_of (load_cloud rd s))"
    by (cases "load_cloud rd s"; cases "draw_all (state_of (load_cloud rd s))")
       (simp_all add: refresh_def draw_all_def sync_slider_def Let_def split: if_splits option.splits)
  then show ?thesis by simp
qed

lemma data_current_index_changed [simp]:
  "data (state_of (current_index_changed s j)) = data s"
  by (simp add: current_index_changed_def)

lemma cur_labels_set_cur_labels:
  "frame_i s < length (data s) \<Longrightarrow> cur_labels (set_cur_labels s labs) = labs"
  by (simp add: cur_labels_def labels_of_def set_cur_labels_def)

lemma frame_i_sync_slider [simp]: "frame_i (state_of (sync_slider s)) = frame_i s"
  by (simp add: sync_slider_def Let_def)

lemma frame_i_current_index_changed [simp]:
  "frame_i (state_of (current_index_changed s j)) = frame_i s"
  by (simp add: current_index_changed_def)

lemma cur_labels_cong:
  "data s' = data s \<Longrightarrow> frame_i s' = frame_i s \<Longrightarrow> cur_labels s' = cur_labels s"
  by (simp add: cur_labels_def)

lemma data_goto [simp]: "data (state_of (goto rd s idx)) = data s"
  by (simp add: goto_def)

lemma list_all_delete:
  "list_all P xs \<Longrightarrow> list_all P (take i xs @ drop (Suc i) xs)"
  by (auto simp: list_all_iff dest: in_set_takeD in_set_dropD)

text \<open>
  The corners of a box lie in one plane exactly when one of its extents is 0, which is
  the test of \<open>flat_box\<close>.
\<close>

lemma corners_coplanar:
  "coplanar (corners cx cy cz w h d y) \<longleftrightarrow> w = 0 \<or> h = 0 \<or> d = 0"
proof
  assume "coplanar (corners cx cy cz w h d y)"
  then obtain a b c k where n: "(a, b, c) \<noteq> (0, 0, 0)"
    and pl: "\<forall>(x, y, z) \<in> set (corners cx cy cz w h d y). a * x + b * y + c * z = k"
    unfolding coplanar_def by blast
  have p1: "a * (cos y * (w / 2) - sin y * (h / 2) + cx) + b * (sin y * (w / 2) + cos y * (h / 2) + cy)
              + c * (d / 2 + cz) = k"
    and p2: "a * (cos y * (w / 2) - sin y * (h / 2) + cx) + b * (sin y * (w / 2) + cos y * (h / 2) + cy)
              + c * (- (d / 2) + cz) = k"
    and p3: "a * (cos y * (- (w / 2)) - sin y * (h / 2) + cx) + b * (sin y * (- (w / 2)) + cos y * (h / 2) + cy)
              + c * (d / 2 + cz) = k"
    and p4: "a * (cos y * (w / 2) - sin y * (- (h / 2)) + cx) + b * (sin y * (w / 2) + cos y * (- (h / 2)) + cy)
              + c * (d / 2 + cz) = k"
    using pl by (simp_all add: corners_def Let_def add3_def row_times_transpose_def dot3_def
        algebra_simps)
  show "w = 0 \<or> h = 0 \<or> d = 0"
  proof (rule ccontr)
    assume "\<not> (w = 0 \<or> h = 0 \<or> d = 0)"
    then have w: "w \<noteq> 0" and h: "h \<noteq> 0" and d: "d \<noteq> 0" by simp_all
    from p1 p2 have "c * (d / 2 + cz) = c * (- (d / 2) + cz)" by linarith
    then have c0: "c = 0" using d by (simp add: algebra_simps)
    from p1 p3 have "a * (cos y * (w / 2) - sin y * (h / 2) + cx) +
          b * (sin y * (w / 2) + cos y * (h / 2) + cy) =
        a * (cos y * (- (w / 2)) - sin y * (h / 2) + cx) +
          b * (sin y * (- (w / 2)) + cos y * (h / 2) + cy)" by linarith
    then have "(a * cos y + b * sin y) * w = 0" by (simp add: algebra_simps)
    then have e1: "a * cos y + b * sin y = 0" using w by simp
    from p1 p4 have "a * (cos y * (w / 2) - sin y * (h / 2) + cx) +
          b * (sin y * (w / 2) + cos y * (h / 2) + cy) =
        a * (cos y * (w / 2) - sin y * (- (h / 2)) + cx) +
          b * (sin y * (w / 2) + cos y * (- (h / 2)) + cy)" by linarith
    then have "(b * cos y - a * sin y) * h = 0" by (simp add: algebra_simps)
    then have e2: "b * cos y - a * sin y = 0" using h by simp
    have sc: "cos y * cos y + sin y * sin y = 1"
      using sin_cos_squared_add2[of y] by (simp add: power2_eq_square)
    have "a * (cos y * cos y + sin y * sin y) =
            cos y * (a * cos y + b * sin y) - sin y * (b * cos y - a * sin y)"
      by algebra
    then have a0: "a = 0" unfolding sc e1 e2 by simp
    have "b * (cos y * cos y + sin y * sin y) =
            sin y * (a * cos y + b * sin y) + cos y * (b * cos y - a * sin y)"
      by algebra
    then have "b = 0" unfolding sc e1 e2 by simp
    with a0 c0 n show False by simp
  qed
next
  assume z: "w = 0 \<or> h = 0 \<or> d = 0"
  have nz: "(cos y, sin y, 0::real) \<noteq> (0, 0, 0)" "(- sin y, cos y, 0::real) \<noteq> (0, 0, 0)"
    using sin_zero_abs_cos_one[of y] by auto
  from z consider "w = 0" | "h = 0" | "d = 0" by blast
  then show "coplanar (corners cx cy cz w h d y)"
  proof cases
    case 1
    show ?thesis
      unfolding coplanar_def
      apply (rule exI[of _ "cos y"], rule exI[of _ "sin y"], rule exI[of _ 0],
             rule exI[of _ "cos y * cx + sin y * cy"])
      using nz(1) 1
      by (simp add: corners_def Let_def add3_def row_times_transpose_def dot3_def algebra_simps)
  next
    case 2
    show ?thesis
      unfolding coplanar_def
      apply (rule exI[of _ "- sin y"], rule exI[of _ "cos y"], rule exI[of _ 0],
             rule exI[of _ "cos y * cy - sin y * cx"])
      using nz(2) 2
      by (simp add: corners_def Let_def add3_def row_times_transpose_def dot3_def algebra_simps)
  next
    case 3
    show ?thesis
      unfolding coplanar_def
      apply (rule exI[of _ 0], rule exI[of _ 0], rule exI[of _ 1], rule exI[of _ cz])
      using 3
      by (simp add: corners_def Let_def add3_def row_times_transpose_def dot3_def algebra_simps)
  qed
qed

lemma flat_box_coplanar:
  "flat_box b \<longleftrightarrow> coplanar (corners (b ! 0) (b ! 1) (b ! 2) (b ! 3) (b ! 4) (b ! 5) (b ! 6))"
  by (simp add: flat_box_def corners_coplanar)

section \<open>Rectangle edits overwrite the parameters of the view's axes\<close>

text \<open>
  Claim C1. For a label of the current record whose box \<open>b\<close> has at least seven
  parameters, \<^verbatim>\<open>_roi_moved\<close> with a rectangle at \<open>(px, py)\<close> of size \<open>(sx, sy)\<close>
  stores, in the view of the axes \<open>(0, 1)\<close>, the centre \<open>cx = px + sx / 2\<close>,
  \<open>cy = py + sy / 2\<close> and the extents \<open>w = sx\<close>, \<open>h = sy\<close>; in the view \<open>(0, 2)\<close> it
  stores \<open>cx\<close>, \<open>cz\<close>, \<open>w\<close>, \<open>d\<close>, and in the view \<open>(1, 2)\<close> it stores \<open>cy\<close>, \<open>cz\<close>,
  \<open>h\<close>, \<open>d\<close>. The other centre coordinate, the other extent, the yaw \<open>b ! 6\<close> and
  the parameters after the seventh stay as they are, and so do the label's class, the
  other labels, the other records and the rest of the editor's state. The rectangle
  at \<open>(2, 3)\<close> of size \<open>(4, 5)\<close> in the view \<open>(0, 1)\<close> gives \<open>cx = 4\<close>, \<open>cy = 5.5\<close>,
  \<open>w = 4\<close>, \<open>h = 5\<close>.
\<close>

theorem roi_moved_overwrites_view_axes:
  assumes "frame_i s < length (data s)"
    and "Labels (data s ! frame_i s) = Some labs"
    and "idx < length labs"
    and "BoundingBoxes (labs ! idx) = b"
    and "7 \<le> length b"
    and "roi_pos r = (px, py)" and "roi_size r = (sx, sy)"
  shows "state_of (roi_moved s r idx (0, 1)) =
           s\<lparr>data := (data s)[frame_i s := (data s ! frame_i s)\<lparr>Labels :=
              Some (labs[idx := (labs ! idx)\<lparr>BoundingBoxes :=
                 [px + sx / 2, py + sy / 2, b ! 2, sx, sy, b ! 5, b ! 6] @ drop 7 b\<rparr>])\<rparr>]\<rparr> \<and>
         state_of (roi_moved s r idx (0, 2)) =
           s\<lparr>data := (data s)[frame_i s := (data s ! frame_i s)\<lparr>Labels :=
              Some (labs[idx := (labs ! idx)\<lparr>BoundingBoxes :=
                 [px + sx / 2, b ! 1, py + sy / 2, sx, b ! 4, sy, b ! 6] @ drop 7 b\<rparr>])\<rparr>]\<rparr> \<and>
         state_of (roi_moved s r idx (1, 2)) =
           s\<lparr>data := (data s)[frame_i s := (data s ! frame_i s)\<lparr>Labels :=
              Some (labs[idx := (labs ! idx)\<lparr>BoundingBoxes :=
                 [b ! 0, px + sx / 2, py + sy / 2, b ! 3, sx, sy, b ! 6] @ drop 7 b\<rparr>])\<rparr>]\<rparr>"
  using assms
  by (simp add: roi_moved_def bbox_params_def set_bbox_params_def set_cur_labels_def take7)

theorem roi_moved_overwrites_view_axes_witness:
  "state_of (roi_moved
      \<lparr>data = [\<lparr>File = Some ''f.pcd'', Labels = Some [\<lparr>Class = ''car'',
                 BoundingBoxes = [0, 0, 9, 1, 1, 8, 1 / 2, 7, 6]\<rparr>]\<rparr>],
       frame_i = 0, pts = [], pcd_dir = [], combo = 0, rot = 0\<rparr>
      \<lparr>roi_pos = (2, 3), roi_size = (4, 5)\<rparr> 0 (0, 1)) =
      \<lparr>data = [\<lparr>File = Some ''f.pcd'', Labels = Some [\<lparr>Class = ''car'',
                 BoundingBoxes = [4, 11 / 2, 9, 4, 5, 8, 1 / 2, 7, 6]\<rparr>]\<rparr>],
       frame_i = 0, pts = [], pcd_dir = [], combo = 0, rot = 0\<rparr>"
  using roi_moved_overwrites_view_axes
    [of "\<lparr>data = [\<lparr>File = Some ''f.pcd'', Labels = Some [\<lparr>Class = ''car'',
                 BoundingBoxes = [0, 0, 9, 1, 1, 8, 1 / 2, 7, 6]\<rparr>]\<rparr>],
       frame_i = 0, pts = [], pcd_dir = [], combo = 0, rot = 0\<rparr>"
      "[\<lparr>Class = ''car'', BoundingBoxes = [0, 0, 9, 1, 1, 8, 1 / 2, 7, 6]\<rparr>]"
      0 "[0, 0, 9, 1, 1, 8, 1 / 2, 7, 6]"
      "\<lparr>roi_pos = (2, 3), roi_size = (4, 5)\<rparr>" 2 3 4 5]
  by simp

section \<open>The rotation control overwrites the yaw only\<close>




section \<open>Deleting a label\<close>

text \<open>
  Claim C7. When the selected index \<open>i\<close> is a valid index of the labels of the current
  record and the user confirms, \<^verbatim>\<open>_delete_label\<close> removes the label at \<open>i\<close>: the
  record keeps the labels below \<open>i\<close> at their indices and every label above \<open>i\<close> moves
  down by one; the other records are unchanged. Without the confirmation nothing
  changes. Deleting index 1 of three labels leaves the former labels 0 and 2 at the
  indices 0 and 1.
\<close>

theorem delete_label_removes_selected:
  assumes "frame_i s < length (data s)"
    and "Labels (data s ! frame_i s) = Some labs"
    and "0 \<le> combo s" and "nat (combo s) < length labs"
  shows "data (state_of (delete_label rd s True)) =
           (data s)[frame_i s := (data s ! frame_i s)\<lparr>Labels :=
              Some (take (nat (combo s)) labs @ drop (Suc (nat (combo s))) labs)\<rparr>] \<and>
         length (cur_labels (state_of (delete_label rd s True))) = length labs - 1 \<and>
         (\<forall>k < nat (combo s). cur_labels (state_of (delete_label rd s True)) ! k = labs ! k) \<and>
         (\<forall>k. nat (combo s) \<le> k \<and> k < length labs - 1 \<longrightarrow>
              cur_labels (state_of (delete_label rd s True)) ! k = labs ! Suc k) \<and>
         state_of (delete_label rd s False) = s"
proof -
  let ?i = "nat (combo s)"
  let ?labs' = "take ?i labs @ drop (Suc ?i) labs"
  have lt: "combo s < int (length labs)"
    using assms(3,4) by linarith
  have del: "delete_label rd s True = refresh rd (set_cur_labels s ?labs')"
    using assms lt by (simp add: delete_label_def cur_labels_Some Let_def)
  have d: "data (state_of (delete_label rd s True)) = data (set_cur_labels s ?labs')"
    unfolding del by simp
  have f: "frame_i (state_of (delete_label rd s True)) = frame_i s"
    unfolding del by (simp add: set_cur_labels_def)
  have c: "cur_labels (state_of (delete_label rd s True)) = ?labs'"
    using d f assms(1)
    by (simp add: cur_labels_def labels_of_def set_cur_labels_def)
  have n1: "?labs' ! k = labs ! k" if "k < ?i" for k
    using that assms(4) by (simp add: nth_append)
  have n2: "?labs' ! k = labs ! Suc k" if "?i \<le> k" "k < length labs - 1" for k
    using that assms(4) by (simp add: nth_append min_def)
  have no: "state_of (delete_label rd s False) = s"
    using assms by (simp add: delete_label_def Let_def)
  show ?thesis
    unfolding c using d n1 n2 no assms(4) by (simp add: set_cur_labels_def)
qed

theorem delete_label_removes_selected_witness:
  "data (state_of (delete_label (\<lambda>f. [])
      \<lparr>data = [\<lparr>File = Some ''f.pcd'', Labels = Some
                 [\<lparr>Class = ''a'', BoundingBoxes = [0, 0, 0, 1, 1, 1, 0]\<rparr>,
                  \<lparr>Class = ''b'', BoundingBoxes = [1, 1, 1, 1, 1, 1, 0]\<rparr>,
                  \<lparr>Class = ''c'', BoundingBoxes = [2, 2, 2, 1, 1, 1, 0]\<rparr>]\<rparr>],
       frame_i = 0, pts = [], pcd_dir = [], combo = 1, rot = 0\<rparr> True)) =
     [\<lparr>File = Some ''f.pcd'', Labels = Some
                 [\<lparr>Class = ''a'', BoundingBoxes = [0, 0, 0, 1, 1, 1, 0]\<rparr>,
                  \<lparr>Class = ''c'', BoundingBoxes = [2, 2, 2, 1, 1, 1, 0]\<rparr>]\<rparr>]"
  using delete_label_removes_selected
    [of "\<lparr>data = [\<lparr>File = Some ''f.pcd'', Labels = Some
                 [\<lparr>Class = ''a'', BoundingBoxes = [0, 0, 0, 1, 1, 1, 0]\<rparr>,
                  \<lparr>Class = ''b'', BoundingBoxes = [1, 1, 1, 1, 1, 1, 0]\<rparr>,
                  \<lparr>Class = ''c'', BoundingBoxes = [2, 2, 2, 1, 1, 1, 0]\<rparr>]\<rparr>],
       frame_i = 0, pts = [], pcd_dir = [], combo = 1, rot = 0\<rparr>"
      "[\<lparr>Class = ''a'', BoundingBoxes = [0, 0, 0, 1, 1, 1, 0]\<rparr>,
        \<lparr>Class = ''b'', BoundingBoxes = [1, 1, 1, 1, 1, 1, 0]\<rparr>,
        \<lparr>Class = ''c'', BoundingBoxes = [2, 2, 2, 1, 1, 1, 0]\<rparr>]"
      "\<lambda>f. []"]
  by simp

section \<open>Adding a label\<close>

lemma add_label_cancelled:
  assumes "frame_i s < length (data s)" and "\<not> ok \<or> strip t = []"
  shows "state_of (add_label rd s (t, ok)) = set_cur_labels s (cur_labels s)"
  using assms by (auto simp: add_label_def Let_def)

lemma add_label_appended:
  assumes "frame_i s < length (data s)" and "strip t \<noteq> []"
    and cen: "(if pts s \<noteq> [] then mean0 (pts s) else (0, 0, 0)) = (cx, cy, cz)"
  shows "data (state_of (add_label rd s (t, True))) =
           (data s)[frame_i s := (data s ! frame_i s)\<lparr>Labels :=
              Some (cur_labels s @
                [\<lparr>Class = strip t, BoundingBoxes = [cx, cy, cz, 1, 1, 1, 0, 0, 0]\<rparr>])\<rparr>]"
    and "cur_labels (state_of (add_label rd s (t, True))) =
           cur_labels s @ [\<lparr>Class = strip t, BoundingBoxes = [cx, cy, cz, 1, 1, 1, 0, 0, 0]\<rparr>]"
proof -
  let ?new = "\<lparr>Class = strip t, BoundingBoxes = [cx, cy, cz, 1, 1, 1, 0, 0, 0]\<rparr>"
  let ?s1 = "set_cur_labels s (cur_labels s)"
  let ?s2 = "set_cur_labels ?s1 (cur_labels s @ [?new])"
  have p1: "pts ?s1 = pts s" by (simp add: set_cur_labels_def)
  have cen1: "(if pts ?s1 \<noteq> [] then mean0 (pts ?s1) else (0, 0, 0)) = (cx, cy, cz)"
    by (simp only: p1 cen)
  have d2: "data ?s2 = (data s)[frame_i s := (data s ! frame_i s)\<lparr>Labels :=
              Some (cur_labels s @ [?new])\<rparr>]"
    using assms(1) by (simp add: set_cur_labels_def)
  have f2: "frame_i ?s2 = frame_i s" by (simp add: set_cur_labels_def)
  have eq: "state_of (add_label rd s (t, True)) =
          (case refresh rd ?s2 of Raised e s3 \<Rightarrow> s3
           | Done s3 \<Rightarrow> state_of (current_index_changed s3 (int (length (cur_labels s3)) - 1)))"
    using assms(1,2)
    by (simp add: add_label_def Let_def cen1 split: outcome.splits split del: if_split)
  have d: "data (state_of (add_label rd s (t, True))) = data ?s2"
  proof (cases "refresh rd ?s2")
    case (Done s3)
    then show ?thesis using data_refresh[of rd ?s2] by (simp add: eq)
  next
    case (Raised e s3)
    then show ?thesis using data_refresh[of rd ?s2] by (simp add: eq)
  qed
  have f: "frame_i (state_of (add_label rd s (t, True))) = frame_i ?s2"
  proof (cases "refresh rd ?s2")
    case (Done s3)
    then show ?thesis using frame_i_refresh[of rd ?s2] by (simp add: eq)
  next
    case (Raised e s3)
    then show ?thesis using frame_i_refresh[of rd ?s2] by (simp add: eq)
  qed
  show "data (state_of (add_label rd s (t, True))) =
           (data s)[frame_i s := (data s ! frame_i s)\<lparr>Labels := Some (cur_labels s @ [?new])\<rparr>]"
    using d d2 by simp
  show "cur_labels (state_of (add_label rd s (t, True))) = cur_labels s @ [?new]"
    using d f d2 f2 assms(1) by (simp add: cur_labels_def labels_of_def)
qed

text \<open>
  Claim C8, as stated, says that the class of the new label equals the text the user
  provided. \<^verbatim>\<open>_add_label\<close> stores \<^verbatim>\<open>txt.strip()\<close>: for the text \<open>'' a''\<close> (a
  space, then \<open>a\<close>) the class stored is \<open>''a''\<close>.
\<close>

theorem add_label_class_is_stripped_counterexample:
  "cur_labels (state_of (add_label (\<lambda>f. [])
      \<lparr>data = [\<lparr>File = Some ''f.pcd'', Labels = Some []\<rparr>],
       frame_i = 0, pts = [], pcd_dir = [], combo = - 1, rot = 0\<rparr> ('' a'', True))) =
     [\<lparr>Class = ''a'', BoundingBoxes = [0, 0, 0, 1, 1, 1, 0, 0, 0]\<rparr>] \<and>
   ''a'' \<noteq> '' a''"
proof -
  have st: "strip '' a'' = ''a''" by code_simp
  have en: "endswith ''f.pcd'' ''.pcd''" by code_simp
  show ?thesis
    by (simp add: add_label_def set_cur_labels_def cur_labels_def labels_of_def refresh_def
        load_cloud_def file_or_empty_def draw_all_def current_index_changed_def
        sync_slider_def Let_def st en)
qed

text \<open>
  Claim C8, amended. When the user confirms the dialog and the text is not blank,
  \<^verbatim>\<open>_add_label\<close> appends one label to the labels of the current record: its class
  is the text without its leading and trailing white space, its box is
  \<open>[cx, cy, cz, 1, 1, 1, 0, 0, 0]\<close> where \<open>(cx, cy, cz)\<close> is the centroid of the
  active point cloud (the origin when the cloud has no point). The labels already
  there keep their indices, the new label has the index that was the number of labels
  before, and the other records are unchanged. When the user cancels the dialog or
  the text is blank, the labels of the current record stay as they are.
\<close>

theorem add_label_appends_unit_box:
  assumes "frame_i s < length (data s)"
  shows "(strip t \<noteq> [] \<longrightarrow>
           data (state_of (add_label rd s (t, True))) =
             (data s)[frame_i s := (data s ! frame_i s)\<lparr>Labels :=
                Some (cur_labels s @
                  [\<lparr>Class = strip t,
                    BoundingBoxes =
                      (case (if pts s \<noteq> [] then mean0 (pts s) else (0, 0, 0)) of
                         (cx, cy, cz) \<Rightarrow> [cx, cy, cz, 1, 1, 1, 0, 0, 0])\<rparr>])\<rparr>] \<and>
           length (cur_labels (state_of (add_label rd s (t, True)))) =
             Suc (length (cur_labels s)) \<and>
           (\<forall>k < length (cur_labels s).
              cur_labels (state_of (add_label rd s (t, True))) ! k = cur_labels s ! k) \<and>
           Class (cur_labels (state_of (add_label rd s (t, True))) ! length (cur_labels s)) =
             strip t) \<and>
         (\<not> ok \<or> strip t = [] \<longrightarrow>
           cur_labels (state_of (add_label rd s (t, ok))) = cur_labels s)"
proof (intro conjI impI)
  obtain cx cy cz where cen: "(if pts s \<noteq> [] then mean0 (pts s) else (0, 0, 0)) = (cx, cy, cz)"
    by (cases "if pts s \<noteq> [] then mean0 (pts s) else (0, 0, 0)") auto
  {
    assume nonblank: "strip t \<noteq> []"
    note app = add_label_appended[OF assms nonblank cen]
    show "data (state_of (add_label rd s (t, True))) =
             (data s)[frame_i s := (data s ! frame_i s)\<lparr>Labels :=
                Some (cur_labels s @
                  [\<lparr>Class = strip t,
                    BoundingBoxes =
                      (case (if pts s \<noteq> [] then mean0 (pts s) else (0, 0, 0)) of
                         (cx, cy, cz) \<Rightarrow> [cx, cy, cz, 1, 1, 1, 0, 0, 0])\<rparr>])\<rparr>]"
      unfolding app cen by simp
    show "length (cur_labels (state_of (add_label rd s (t, True)))) = Suc (length (cur_labels s))"
      unfolding app by simp
    show "\<forall>k < length (cur_labels s).
              cur_labels (state_of (add_label rd s (t, True))) ! k = cur_labels s ! k"
      unfolding app by (simp add: nth_append)
    show "Class (cur_labels (state_of (add_label rd s (t, True))) ! length (cur_labels s)) = strip t"
      unfolding app by simp
  }
  {
    assume "\<not> ok \<or> strip t = []"
    then show "cur_labels (state_of (add_label rd s (t, ok))) = cur_labels s"
      using add_label_cancelled[OF assms, of ok t rd] assms
      by (simp add: cur_labels_set_cur_labels)
  }
qed

theorem add_label_appends_unit_box_witness:
  "data (state_of (add_label (\<lambda>f. [(0, 0, 0), (2, 4, 6)])
      \<lparr>data = [\<lparr>File = Some ''f.pcd'', Labels = None\<rparr>],
       frame_i = 0, pts = [(0, 0, 0), (2, 4, 6)], pcd_dir = [], combo = - 1, rot = 0\<rparr>
      (''human1'', True))) =
     [\<lparr>File = Some ''f.pcd'', Labels = Some
         [\<lparr>Class = ''human1'', BoundingBoxes = [1, 2, 3, 1, 1, 1, 0, 0, 0]\<rparr>]\<rparr>]"
proof -
  let ?s = "\<lparr>data = [\<lparr>File = Some ''f.pcd'', Labels = None\<rparr>],
            frame_i = 0, pts = [(0, 0, 0), (2, 4, 6)], pcd_dir = [], combo = - 1, rot = 0\<rparr>"
  have fr: "frame_i ?s < length (data ?s)" by simp
  have st: "strip ''human1'' = ''human1''" by code_simp
  then have nonblank: "strip ''human1'' \<noteq> []" by simp
  show ?thesis
    using add_label_appends_unit_box
      [OF fr, of "''human1''" "\<lambda>f. [(0, 0, 0), (2, 4, 6)]", THEN conjunct1, THEN mp,
       OF nonblank, THEN conjunct1]
    by (simp add: st mean0_def cur_labels_def labels_of_def)
qed

text \<open>
  Claim C10. Whatever the dialog returns, \<^verbatim>\<open>_add_label\<close> either leaves the labels
  of the current record as they are or appends exactly one label, and the box of that
  label has nine scalars: three centre coordinates, the extents 1, 1, 1, the yaw 0 and
  two more scalars, both 0.
\<close>

theorem add_label_box_has_nine_scalars:
  assumes "frame_i s < length (data s)"
  shows "cur_labels (state_of (add_label rd s dialog)) = cur_labels s \<or>
         (\<exists>lab cx cy cz.
            cur_labels (state_of (add_label rd s dialog)) = cur_labels s @ [lab] \<and>
            BoundingBoxes lab = [cx, cy, cz, 1, 1, 1, 0, 0, 0] \<and>
            length (BoundingBoxes lab) = 9)"
proof -
  obtain t ok where dlg: "dialog = (t, ok)" by (cases dialog)
  show ?thesis
  proof (cases "ok \<and> strip t \<noteq> []")
    case True
    obtain cx cy cz where cen: "(if pts s \<noteq> [] then mean0 (pts s) else (0, 0, 0)) = (cx, cy, cz)"
      by (cases "if pts s \<noteq> [] then mean0 (pts s) else (0, 0, 0)") auto
    have "cur_labels (state_of (add_label rd s dialog)) =
            cur_labels s @ [\<lparr>Class = strip t, BoundingBoxes = [cx, cy, cz, 1, 1, 1, 0, 0, 0]\<rparr>]"
      using add_label_appended(2)[OF assms _ cen, of t rd] True by (simp add: dlg)
    then show ?thesis by simp
  next
    case False
    then have "state_of (add_label rd s dialog) = set_cur_labels s (cur_labels s)"
      using add_label_cancelled[OF assms, of ok t rd] by (auto simp: dlg)
    then show ?thesis
      using assms by (simp add: cur_labels_set_cur_labels)
  qed
qed

theorem add_label_box_has_nine_scalars_witness:
  "\<exists>lab cx cy cz.
     cur_labels (state_of (add_label (\<lambda>f. [(1, 1, 1)])
       \<lparr>data = [\<lparr>File = Some ''f.pcd'', Labels = Some []\<rparr>],
        frame_i = 0, pts = [(1, 1, 1)], pcd_dir = [], combo = - 1, rot = 0\<rparr>
       (''x'', True))) = [lab] \<and>
     BoundingBoxes lab = [cx, cy, cz, 1, 1, 1, 0, 0, 0] \<and> length (BoundingBoxes lab) = 9"
proof -
  let ?s = "\<lparr>data = [\<lparr>File = Some ''f.pcd'', Labels = Some []\<rparr>],
             frame_i = 0, pts = [(1, 1, 1)], pcd_dir = [], combo = - 1, rot = 0\<rparr>"
  have "strip ''x'' = ''x''" by code_simp
  then have "cur_labels (state_of (add_label (\<lambda>f. [(1, 1, 1)]) ?s (''x'', True))) \<noteq> cur_labels ?s"
    using add_label_appended(2)[of ?s "''x''" 1 1 1 "\<lambda>f. [(1, 1, 1)]"]
    by (simp add: mean0_def)
  then show ?thesis
    using add_label_box_has_nine_scalars[of ?s "\<lambda>f. [(1, 1, 1)]" "(''x'', True)"]
    by (simp add: cur_labels_def labels_of_def)
qed

section \<open>Positive extents are kept by edits of positive size\<close>

lemma store_ok_data: "data s' = data s \<Longrightarrow> store_ok s' = store_ok s"
  by (simp add: store_ok_def)

lemma store_ok_cur_labels:
  "store_ok s \<Longrightarrow> frame_i s < length (data s) \<Longrightarrow>
   list_all (\<lambda>lab. box_ok (BoundingBoxes lab)) (cur_labels s)"
  by (simp add: store_ok_def cur_labels_def list_all_length)

lemma store_ok_set_cur_labels:
  assumes "store_ok s" and "list_all (\<lambda>lab. box_ok (BoundingBoxes lab)) labs"
  shows "store_ok (set_cur_labels s labs)"
proof -
  have "list_all (\<lambda>lab. box_ok (BoundingBoxes lab))
          (labels_of ((data s)[frame_i s := (data s ! frame_i s)\<lparr>Labels := Some labs\<rparr>] ! k))"
    if "k < length (data s)" for k
    using that assms by (cases "k = frame_i s") (simp_all add: store_ok_def list_all_length labels_of_def)
  then show ?thesis
    by (simp add: store_ok_def set_cur_labels_def list_all_length)
qed

lemma list_all_update:
  "list_all P xs \<Longrightarrow> P x \<Longrightarrow> list_all P (xs[i := x])"
  using set_update_subset_insert[of xs i x] by (auto simp: list_all_iff)

lemma store_ok_roi_moved:
  assumes "store_ok s" and "0 < fst (roi_size r)" and "0 < snd (roi_size r)"
  shows "store_ok (state_of (roi_moved s r label_idx axes))"
proof (cases "bbox_params s label_idx")
  case (Inl e)
  then show ?thesis using assms(1) by (simp add: roi_moved_def split: prod.splits)
next
  case (Inr full)
  then have fr: "frame_i s < length (data s)"
    and ex: "\<exists>labs. Labels (data s ! frame_i s) = Some labs \<and> label_idx < length labs \<and>
               full = BoundingBoxes (labs ! label_idx)"
    by (auto simp: bbox_params_def split: if_splits option.splits)
  then obtain labs where labs: "Labels (data s ! frame_i s) = Some labs"
    "label_idx < length labs" "full = BoundingBoxes (labs ! label_idx)" by blast
  have cl: "cur_labels s = labs" using labs(1) by (rule cur_labels_Some)
  have all: "list_all (\<lambda>lab. box_ok (BoundingBoxes lab)) labs"
    using store_ok_cur_labels[OF assms(1) fr] cl by simp
  then have ok: "box_ok full"
    using labs(2,3) by (simp add: list_all_length)
  then have len: "7 \<le> length full" by (simp add: box_ok_def)
  obtain px py sx sy where r: "roi_pos r = (px, py)" "roi_size r = (sx, sy)"
    by (cases "roi_pos r"; cases "roi_size r") auto
  define params where "params =
     (if axes = (0, 1) then [px + sx * 0.5, py + sy * 0.5, full ! 2, sx, sy, full ! 5, full ! 6]
      else if axes = (0, 2) then [px + sx * 0.5, full ! 1, py + sy * 0.5, sx, full ! 4, sy, full ! 6]
      else [full ! 0, px + sx * 0.5, py + sy * 0.5, full ! 3, sx, sy, full ! 6])"
  have pok: "box_ok (params @ drop 7 full)"
    using ok assms(2,3) r by (simp add: box_ok_def params_def)
  have "state_of (roi_moved s r label_idx axes) =
          set_cur_labels s (labs[label_idx := (labs ! label_idx)\<lparr>BoundingBoxes := params @ drop 7 full\<rparr>])"
    using Inr fr labs r len
    by (simp add: roi_moved_def take7 set_bbox_params_def params_def)
  moreover have "list_all (\<lambda>lab. box_ok (BoundingBoxes lab))
          (labs[label_idx := (labs ! label_idx)\<lparr>BoundingBoxes := params @ drop 7 full\<rparr>])"
    using all pok by (simp add: list_all_update)
  ultimately show ?thesis
    using store_ok_set_cur_labels[OF assms(1)] by simp
qed

lemma store_ok_rot_bbox:
  assumes "store_ok s"
  shows "store_ok (state_of (rot_bbox s deg))"
proof (cases "frame_i s < length (data s) \<and> 0 \<le> combo s \<and> combo s < int (length (cur_labels s))
              \<and> 6 < length (BoundingBoxes (cur_labels s ! nat (combo s)))")
  case True
  let ?lab = "cur_labels s ! nat (combo s)"
  let ?b = "BoundingBoxes ?lab"
  have all: "list_all (\<lambda>lab. box_ok (BoundingBoxes lab)) (cur_labels s)"
    using store_ok_cur_labels[OF assms] True by simp
  moreover have "nat (combo s) < length (cur_labels s)"
    using True by linarith
  ultimately have "box_ok ?b"
    by (simp add: list_all_length)
  then have "box_ok (?b[6 := radians (of_int deg)])"
    by (simp add: box_ok_def)
  then have "list_all (\<lambda>lab. box_ok (BoundingBoxes lab))
          ((cur_labels s)[nat (combo s) := ?lab\<lparr>BoundingBoxes := ?b[6 := radians (of_int deg)]\<rparr>])"
    using all by (simp add: list_all_update)
  then show ?thesis
    using True store_ok_set_cur_labels[OF assms] by (simp add: rot_bbox_def Let_def)
next
  case False
  then show ?thesis
    using assms by (auto simp: rot_bbox_def Let_def)
qed

lemma store_ok_rename_label:
  assumes "store_ok s"
  shows "store_ok (state_of (rename_label s auto_prompt dialog line_edit))"
proof (cases "frame_i s < length (data s)")
  case True
  have all: "list_all (\<lambda>lab. box_ok (BoundingBoxes lab)) (cur_labels s)"
    using store_ok_cur_labels[OF assms True] .
  have "list_all (\<lambda>lab. box_ok (BoundingBoxes lab))
          ((cur_labels s)[i := (cur_labels s ! i)\<lparr>Class := c\<rparr>])" if "i < length (cur_labels s)" for i c
    using all that by (intro list_all_update) (simp_all add: list_all_length)
  then show ?thesis
    using True assms store_ok_set_cur_labels[OF assms]
    by (auto simp: rename_label_def Let_def)
next
  case False
  then show ?thesis using assms by (simp add: rename_label_def)
qed

lemma store_ok_delete_label:
  assumes "store_ok s"
  shows "store_ok (state_of (delete_label rd s yes))"
proof (cases "frame_i s < length (data s)")
  case True
  have all: "list_all (\<lambda>lab. box_ok (BoundingBoxes lab)) (cur_labels s)"
    using store_ok_cur_labels[OF assms True] .
  have "store_ok (set_cur_labels s (take i (cur_labels s) @ drop (Suc i) (cur_labels s)))" for i
    using store_ok_set_cur_labels[OF assms list_all_delete[OF all]] .
  then have "store_ok (state_of (refresh rd
      (set_cur_labels s (take i (cur_labels s) @ drop (Suc i) (cur_labels s)))))" for i
    using store_ok_data[OF data_refresh] by simp
  then show ?thesis
    using True assms by (simp add: delete_label_def Let_def)
next
  case False
  then show ?thesis using assms by (simp add: delete_label_def)
qed

lemma store_ok_add_label:
  assumes "store_ok s"
  shows "store_ok (state_of (add_label rd s dialog))"
proof (cases "frame_i s < length (data s)")
  case True
  have all: "list_all (\<lambda>lab. box_ok (BoundingBoxes lab)) (cur_labels s)"
    using store_ok_cur_labels[OF assms True] .
  let ?s1 = "set_cur_labels s (cur_labels s)"
  have ok1: "store_ok ?s1"
    using store_ok_set_cur_labels[OF assms all] .
  obtain t ok where dlg: "dialog = (t, ok)" by (cases dialog)
  show ?thesis
  proof (cases "\<not> ok \<or> strip t = []")
    case True
    then show ?thesis
      using ok1 \<open>frame_i s < length (data s)\<close> by (auto simp: add_label_def dlg Let_def)
  next
    case False
    obtain cx cy cz where cen: "(if pts ?s1 \<noteq> [] then mean0 (pts ?s1) else (0, 0, 0)) = (cx, cy, cz)"
      by (cases "if pts ?s1 \<noteq> [] then mean0 (pts ?s1) else (0, 0, 0)") auto
    let ?new = "\<lparr>Class = strip t, BoundingBoxes = [cx, cy, cz, 1, 1, 1, 0, 0, 0]\<rparr>"
    let ?s2 = "set_cur_labels ?s1 (cur_labels s @ [?new])"
    have "list_all (\<lambda>lab. box_ok (BoundingBoxes lab)) (cur_labels s @ [?new])"
      using all by (simp add: box_ok_def)
    then have ok2: "store_ok ?s2"
      using store_ok_set_cur_labels[OF ok1] by simp
    have eq: "state_of (add_label rd s dialog) =
          (case refresh rd ?s2 of Raised e s3 \<Rightarrow> s3
           | Done s3 \<Rightarrow> state_of (current_index_changed s3 (int (length (cur_labels s3)) - 1)))"
      using False \<open>frame_i s < length (data s)\<close>
      by (simp add: add_label_def dlg Let_def cen split: outcome.splits split del: if_split)
    have "data (state_of (add_label rd s dialog)) = data ?s2"
    proof (cases "refresh rd ?s2")
      case (Done s3)
      then show ?thesis using data_refresh[of rd ?s2] by (simp add: eq)
    next
      case (Raised e s3)
      then show ?thesis using data_refresh[of rd ?s2] by (simp add: eq)
    qed
    then show ?thesis using ok2 store_ok_data by blast
  qed
next
  case False
  then show ?thesis using assms by (simp add: add_label_def)
qed

text \<open>
  Claim C4, as stated, says that a write with an extent that is not positive is
  rejected before it reaches the store. The program has no such check:
  \<^verbatim>\<open>_roi_moved\<close> stores the size of the rectangle as it is. A rectangle of size
  \<open>(0, 0)\<close> in the view \<open>(0, 1)\<close> turns a box with the extents 1, 1, 1 into one with
  the extents 0, 0, 1. The box is stored; the redraw that follows the write raises
  QhullError on the flat box, and the stored box stays as written.
\<close>

theorem zero_size_rectangle_counterexample:
  "store_ok \<lparr>data = [\<lparr>File = Some ''f.pcd'', Labels = Some [\<lparr>Class = ''car'',
                 BoundingBoxes = [0, 0, 0, 1, 1, 1, 0]\<rparr>]\<rparr>],
       frame_i = 0, pts = [], pcd_dir = [], combo = 0, rot = 0\<rparr> \<and>
   roi_moved \<lparr>data = [\<lparr>File = Some ''f.pcd'', Labels = Some [\<lparr>Class = ''car'',
                 BoundingBoxes = [0, 0, 0, 1, 1, 1, 0]\<rparr>]\<rparr>],
       frame_i = 0, pts = [], pcd_dir = [], combo = 0, rot = 0\<rparr>
      \<lparr>roi_pos = (2, 3), roi_size = (0, 0)\<rparr> 0 (0, 1) =
     Raised QhullError \<lparr>data = [\<lparr>File = Some ''f.pcd'', Labels = Some [\<lparr>Class = ''car'',
                 BoundingBoxes = [2, 3, 0, 0, 0, 1, 0]\<rparr>]\<rparr>],
       frame_i = 0, pts = [], pcd_dir = [], combo = 0, rot = 0\<rparr> \<and>
   \<not> store_ok \<lparr>data = [\<lparr>File = Some ''f.pcd'', Labels = Some [\<lparr>Class = ''car'',
                 BoundingBoxes = [2, 3, 0, 0, 0, 1, 0]\<rparr>]\<rparr>],
       frame_i = 0, pts = [], pcd_dir = [], combo = 0, rot = 0\<rparr>"
  by (simp add: store_ok_def box_ok_def labels_of_def roi_moved_def bbox_params_def
      set_bbox_params_def set_cur_labels_def draw_all_def cur_labels_def flat_box_def)

text \<open>
  Claim C4, amended. If every stored box has its seven parameters and positive
  extents, then it is so again after any gesture, provided that a rectangle edit
  carries a rectangle of positive width and height. Rotation, selection, renaming,
  deleting, adding (the new box has the extents 1, 1, 1) and navigation need no
  condition.
\<close>

theorem positive_sizes_keep_extents_positive:
  assumes "store_ok s" and "positive_size act"
  shows "store_ok (state_of (perform rd s act))"
proof (cases act)
  case (Roi_moved r label_idx axes)
  then show ?thesis using assms by (simp add: store_ok_roi_moved)
next
  case (Rot_bbox deg)
  then show ?thesis using assms by (simp add: store_ok_rot_bbox)
next
  case (Current_index_changed j)
  then show ?thesis using assms store_ok_data[OF data_current_index_changed] by simp
next
  case (Rename_label auto_prompt dialog line_edit)
  then show ?thesis using assms by (simp add: store_ok_rename_label)
next
  case (Delete_label yes)
  then show ?thesis using assms by (simp add: store_ok_delete_label)
next
  case (Add_label dialog)
  then show ?thesis using assms by (simp add: store_ok_add_label)
next
  case (Goto idx)
  then show ?thesis using assms store_ok_data[OF data_goto] by simp
qed

theorem positive_sizes_keep_extents_positive_witness:
  "store_ok \<lparr>data = [\<lparr>File = Some ''f.pcd'', Labels = Some [\<lparr>Class = ''car'',
                 BoundingBoxes = [0, 0, 0, 1, 1, 1, 0]\<rparr>]\<rparr>],
       frame_i = 0, pts = [], pcd_dir = [], combo = 0, rot = 0\<rparr> \<and>
   positive_size (Roi_moved \<lparr>roi_pos = (2, 3), roi_size = (4, 5)\<rparr> 0 (0, 1)) \<and>
   store_ok (state_of (perform (\<lambda>f. [])
      \<lparr>data = [\<lparr>File = Some ''f.pcd'', Labels = Some [\<lparr>Class = ''car'',
                 BoundingBoxes = [0, 0, 0, 1, 1, 1, 0]\<rparr>]\<rparr>],
       frame_i = 0, pts = [], pcd_dir = [], combo = 0, rot = 0\<rparr>
      (Roi_moved \<lparr>roi_pos = (2, 3), roi_size = (4, 5)\<rparr> 0 (0, 1))))"
  using positive_sizes_keep_extents_positive
    [of "\<lparr>data = [\<lparr>File = Some ''f.pcd'', Labels = Some [\<lparr>Class = ''car'',
                 BoundingBoxes = [0, 0, 0, 1, 1, 1, 0]\<rparr>]\<rparr>],
       frame_i = 0, pts = [], pcd_dir = [], combo = 0, rot = 0\<rparr>"
      "Roi_moved \<lparr>roi_pos = (2, 3), roi_size = (4, 5)\<rparr> 0 (0, 1)" "\<lambda>f. []"]
  by (simp add: store_ok_def box_ok_def labels_of_def)

section \<open>Corners of a box\<close>

text \<open>
  Claim C5. For all parameters, \<^verbatim>\<open>_corners\<close> returns eight points: the corners
  \<open>(\<plusminus>w/2, \<plusminus>h/2, \<plusminus>d/2)\<close> of the box around the origin, in the order of the source,
  each rotated about the vertical axis by the matrix with the rows \<open>(cos, -sin, 0)\<close>,
  \<open>(sin, cos, 0)\<close>, \<open>(0, 0, 1)\<close> and then moved by the centre. Their centroid is
  \<open>(cx, cy, cz)\<close>. Scalars are real numbers.
\<close>

theorem corners_centroid:
  "length (corners cx cy cz w h d y) = 8 \<and>
   corners cx cy cz w h d y =
     map (\<lambda>(px, py, pz).
            (cos y * px - sin y * py + cx, sin y * px + cos y * py + cy, pz + cz))
       [( w / 2,  h / 2,  d / 2), ( w / 2, - (h / 2),  d / 2),
        (- (w / 2), - (h / 2),  d / 2), (- (w / 2),  h / 2,  d / 2),
        ( w / 2,  h / 2, - (d / 2)), ( w / 2, - (h / 2), - (d / 2)),
        (- (w / 2), - (h / 2), - (d / 2)), (- (w / 2),  h / 2, - (d / 2))] \<and>
   mean0 (corners cx cy cz w h d y) = (cx, cy, cz)"
proof (intro conjI)
  show "length (corners cx cy cz w h d y) = 8"
    by (simp add: corners_def Let_def)
  show "corners cx cy cz w h d y =
     map (\<lambda>(px, py, pz).
            (cos y * px - sin y * py + cx, sin y * px + cos y * py + cy, pz + cz))
       [( w / 2,  h / 2,  d / 2), ( w / 2, - (h / 2),  d / 2),
        (- (w / 2), - (h / 2),  d / 2), (- (w / 2),  h / 2,  d / 2),
        ( w / 2,  h / 2, - (d / 2)), ( w / 2, - (h / 2), - (d / 2)),
        (- (w / 2), - (h / 2), - (d / 2)), (- (w / 2),  h / 2, - (d / 2))]"
    by (simp add: corners_def Let_def add3_def row_times_transpose_def dot3_def
        mult.commute)
  show "mean0 (corners cx cy cz w h d y) = (cx, cy, cz)"
    by (simp add: corners_def Let_def add3_def row_times_transpose_def dot3_def mean0_def)
qed

section \<open>Reconciliation is all or nothing\<close>

lemma get_close_matches_none:
  assumes "\<forall>x \<in> set possibilities. ratio x word < cutoff"
  shows "get_close_matches word possibilities n cutoff = Inl ValueError \<or>
         get_close_matches word possibilities n cutoff = Inr []"
proof -
  have "filter (\<lambda>x. cutoff \<le> real_quick_ratio x word \<and> cutoff \<le> quick_ratio x word \<and>
                     cutoff \<le> ratio x word) possibilities = []"
    using assms by (auto simp: filter_empty_conv)
  then show ?thesis
    by (simp add: get_close_matches_def Let_def)
qed

lemma match_records_outcome:
  "match_records rs basenames cutoff = Inl out \<Longrightarrow> out \<noteq> Sync_complete \<and> out \<noteq> Count_mismatch"
  by (induction rs arbitrary: out)
     (auto simp: Let_def split: sum.splits list.splits)

lemma match_records_no_match:
  assumes "\<exists>r \<in> set rs. \<forall>x \<in> set basenames. ratio x (stem (file_or_empty r)) < cutoff"
  shows "\<exists>out. match_records rs basenames cutoff = Inl out"
  using assms
proof (induction rs)
  case Nil
  then show ?case by simp
next
  case (Cons r rs)
  show ?case
  proof (cases "\<forall>x \<in> set basenames. ratio x (stem (file_or_empty r)) < cutoff")
    case True
    from get_close_matches_none[OF this, of 1]
    show ?thesis by (auto simp: Let_def)
  next
    case False
    then have "\<exists>out. match_records rs basenames cutoff = Inl out"
      using Cons by auto
    then show ?thesis
      by (auto simp: Let_def split: sum.splits list.splits)
  qed
qed

lemma sync_not_complete_unchanged:
  "fst (sync_json_pcd_filenames json listing cutoff) \<noteq> Sync_complete \<Longrightarrow>
   snd (sync_json_pcd_filenames json listing cutoff) = json"
  by (auto simp: sync_json_pcd_filenames_def Let_def split: sum.splits if_splits)

text \<open>
  Claim C2. When the number of records differs from the number of files of the
  directory whose name ends in \<^verbatim>\<open>.pcd\<close> (in any case), or when for some record no
  stem of these files has a similarity ratio of at least the cutoff with the stem of
  the record's \<^verbatim>\<open>File\<close>, \<^verbatim>\<open>sync_json_pcd_filenames\<close> does not complete, and the
  content of the label file afterwards is the content before: no record is changed,
  none is reordered, nothing is written. A different count ends in the count-mismatch
  warning.
\<close>

theorem sync_aborts_without_writing:
  assumes "length json \<noteq> length (filter (\<lambda>f. endswith (lower f) ''.pcd'') listing) \<or>
           (\<exists>r \<in> set json.
              \<forall>x \<in> set (map stem (filter (\<lambda>f. endswith (lower f) ''.pcd'') listing)).
                ratio x (stem (file_or_empty r)) < cutoff)"
  shows "fst (sync_json_pcd_filenames json listing cutoff) \<noteq> Sync_complete \<and>
         snd (sync_json_pcd_filenames json listing cutoff) = json \<and>
         (length json \<noteq> length (filter (\<lambda>f. endswith (lower f) ''.pcd'') listing) \<longrightarrow>
            fst (sync_json_pcd_filenames json listing cutoff) = Count_mismatch)"
proof (cases "length json \<noteq> length (filter (\<lambda>f. endswith (lower f) ''.pcd'') listing)")
  case True
  then show ?thesis by (simp add: sync_json_pcd_filenames_def)
next
  case False
  with assms obtain out where
    "match_records json (map stem (filter (\<lambda>f. endswith (lower f) ''.pcd'') listing)) cutoff
       = Inl out"
    using match_records_no_match by blast
  then show ?thesis
    using False match_records_outcome by (auto simp: sync_json_pcd_filenames_def)
qed

theorem sync_aborts_without_writing_witness:
  "sync_json_pcd_filenames
     [\<lparr>File = Some ''0001.png'', Labels = Some []\<rparr>, \<lparr>File = Some ''zzzz.png'', Labels = Some []\<rparr>]
     [''0001.pcd'', ''0002.pcd''] 0.6 =
   (No_fuzzy_match ''zzzz.png'',
     [\<lparr>File = Some ''0001.png'', Labels = Some []\<rparr>, \<lparr>File = Some ''zzzz.png'', Labels = Some []\<rparr>])"
proof -
  let ?json = "[\<lparr>File = Some ''0001.png'', Labels = Some []\<rparr>,
                \<lparr>File = Some ''zzzz.png'', Labels = Some []\<rparr>]"
  have files: "filter (\<lambda>f. endswith (lower f) ''.pcd'') [''0001.pcd'', ''0002.pcd''] =
               [''0001.pcd'', ''0002.pcd'']"
    by code_simp
  have stems: "stem ''0001.pcd'' = ''0001''" "stem ''0002.pcd'' = ''0002''"
    "stem ''zzzz.png'' = ''zzzz''"
    by code_simp+
  have r: "ratio ''0001'' ''zzzz'' = 0" "ratio ''0002'' ''zzzz'' = 0"
    by code_simp+
  have hyp: "length ?json \<noteq> length (filter (\<lambda>f. endswith (lower f) ''.pcd'')
                 [''0001.pcd'', ''0002.pcd'']) \<or>
           (\<exists>r \<in> set ?json.
              \<forall>x \<in> set (map stem (filter (\<lambda>f. endswith (lower f) ''.pcd'')
                 [''0001.pcd'', ''0002.pcd''])).
                ratio x (stem (file_or_empty r)) < 0.6)"
    unfolding files by (simp add: stems r file_or_empty_def)
  have out: "fst (sync_json_pcd_filenames ?json [''0001.pcd'', ''0002.pcd''] 0.6) =
             No_fuzzy_match ''zzzz.png''"
    by code_simp
  have "snd (sync_json_pcd_filenames ?json [''0001.pcd'', ''0002.pcd''] 0.6) = ?json"
    using sync_aborts_without_writing[OF hyp] by simp
  with out show ?thesis by (simp add: prod_eq_iff)
qed

section \<open>Facts about matching the records and about stems\<close>

lemma get_close_matches_Inr_Cons:
  assumes "get_close_matches w ps 1 cutoff = Inr (m # ms)"
  shows "ms = [] \<and> m \<in> set ps \<and> cutoff \<le> ratio m w \<and>
         (\<forall>x \<in> set ps. ratio x w \<le> ratio m w)"
proof -
  have c: "0 \<le> cutoff" "cutoff \<le> 1"
    using assms by (auto simp: get_close_matches_def split: if_splits)
  have "filter (\<lambda>x. cutoff \<le> ratio x w) ps \<noteq> []"
    using assms unfolding get_close_matches_1[OF c] by (auto split: if_splits)
  then obtain x0 where "x0 \<in> set ps" "cutoff \<le> ratio x0 w"
    by (auto simp: filter_empty_conv)
  from get_close_matches_best[OF c this]
  obtain m' where m': "get_close_matches w ps 1 cutoff = Inr [m']" "m' \<in> set ps"
    "cutoff \<le> ratio m' w"
    "\<forall>x \<in> set ps. cutoff \<le> ratio x w \<longrightarrow> (ratio x w, x) \<le> (ratio m' w, m')"
    by blast
  have eq: "m = m'" "ms = []" using assms m'(1) by simp_all
  have "ratio x w \<le> ratio m' w" if "x \<in> set ps" for x
  proof (cases "cutoff \<le> ratio x w")
    case True
    then have "(ratio x w, x) \<le> (ratio m' w, m')" using m'(4) that by blast
    then show ?thesis by (auto simp: less_eq_prod_def)
  next
    case False
    then show ?thesis using m'(3) by linarith
  qed
  then show ?thesis using eq m'(2,3) by simp
qed

lemma match_records_Inr:
  assumes "match_records rs basenames cutoff = Inr fs"
  shows "\<exists>ms. length ms = length rs \<and> fs = map (\<lambda>m. m @ ''.pcd'') ms \<and>
           (\<forall>k < length rs. ms ! k \<in> set basenames \<and>
              cutoff \<le> ratio (ms ! k) (stem (file_or_empty (rs ! k))) \<and>
              (\<forall>x \<in> set basenames.
                 ratio x (stem (file_or_empty (rs ! k))) \<le> ratio (ms ! k) (stem (file_or_empty (rs ! k)))))"
  using assms
proof (induction rs arbitrary: fs)
  case Nil
  then show ?case by simp
next
  case (Cons r rs)
  let ?w = "stem (file_or_empty r)"
  from Cons.prems obtain m ms0 fs0 where
    g: "get_close_matches ?w basenames 1 cutoff = Inr (m # ms0)"
    and r: "match_records rs basenames cutoff = Inr fs0"
    and fs: "fs = (m @ ''.pcd'') # fs0"
    by (auto simp: Let_def split: sum.splits list.splits)
  from Cons.IH[OF r] obtain ms where ms: "length ms = length rs" "fs0 = map (\<lambda>m. m @ ''.pcd'') ms"
    "\<forall>k < length rs. ms ! k \<in> set basenames \<and>
              cutoff \<le> ratio (ms ! k) (stem (file_or_empty (rs ! k))) \<and>
              (\<forall>x \<in> set basenames.
                 ratio x (stem (file_or_empty (rs ! k))) \<le> ratio (ms ! k) (stem (file_or_empty (rs ! k))))"
    by blast
  note h = get_close_matches_Inr_Cons[OF g]
  have "\<forall>k < length (r # rs). (m # ms) ! k \<in> set basenames \<and>
              cutoff \<le> ratio ((m # ms) ! k) (stem (file_or_empty ((r # rs) ! k))) \<and>
              (\<forall>x \<in> set basenames.
                 ratio x (stem (file_or_empty ((r # rs) ! k)))
                   \<le> ratio ((m # ms) ! k) (stem (file_or_empty ((r # rs) ! k))))"
  proof (intro allI impI)
    fix k assume "k < length (r # rs)"
    then show "(m # ms) ! k \<in> set basenames \<and>
              cutoff \<le> ratio ((m # ms) ! k) (stem (file_or_empty ((r # rs) ! k))) \<and>
              (\<forall>x \<in> set basenames.
                 ratio x (stem (file_or_empty ((r # rs) ! k)))
                   \<le> ratio ((m # ms) ! k) (stem (file_or_empty ((r # rs) ! k))))"
      using h ms(3) by (cases k) auto
  qed
  then show ?case
    using ms(1,2) fs by (intro exI[of _ "m # ms"]) simp
qed

lemma match_records_exact:
  assumes "0 \<le> cutoff" and "cutoff \<le> 1"
    and "\<forall>r \<in> set rs. stem (file_or_empty r) \<in> set basenames"
  shows "match_records rs basenames cutoff =
           Inr (map (\<lambda>r. stem (file_or_empty r) @ ''.pcd'') rs)"
  using assms(3)
proof (induction rs)
  case Nil
  show ?case by simp
next
  case (Cons r rs)
  have "get_close_matches (stem (file_or_empty r)) basenames 1 cutoff = Inr [stem (file_or_empty r)]"
    using Cons.prems by (intro get_close_matches_exact[OF assms(1,2)]) simp
  then show ?case
    using Cons by (simp add: Let_def)
qed

lemma match_records_complete:
  assumes "0 \<le> cutoff" and "cutoff \<le> 1"
    and "\<forall>r \<in> set rs. \<exists>x \<in> set basenames. cutoff \<le> ratio x (stem (file_or_empty r))"
  shows "\<exists>fs. match_records rs basenames cutoff = Inr fs"
  using assms(3)
proof (induction rs)
  case Nil
  show ?case by simp
next
  case (Cons r rs)
  from Cons.prems obtain x0 where x0: "x0 \<in> set basenames"
    "cutoff \<le> ratio x0 (stem (file_or_empty r))"
    by auto
  from get_close_matches_best[OF assms(1,2) x0]
  obtain m where "get_close_matches (stem (file_or_empty r)) basenames 1 cutoff = Inr [m]"
    by blast
  moreover from Cons obtain fs0 where "match_records rs basenames cutoff = Inr fs0"
    by auto
  ultimately show ?case
    by (simp add: Let_def)
qed

lemma sync_complete_iff:
  "fst (sync_json_pcd_filenames json listing cutoff) = Sync_complete \<longleftrightarrow>
     length json = length (filter (\<lambda>f. endswith (lower f) ''.pcd'') listing) \<and>
     (\<exists>fs. match_records json (map stem (filter (\<lambda>f. endswith (lower f) ''.pcd'') listing)) cutoff
             = Inr fs)"
  using match_records_outcome
  by (auto simp: sync_json_pcd_filenames_def Let_def split: sum.splits)

lemma sync_complete_result:
  assumes "length json = length (filter (\<lambda>f. endswith (lower f) ''.pcd'') listing)"
    and "match_records json (map stem (filter (\<lambda>f. endswith (lower f) ''.pcd'') listing)) cutoff
             = Inr fs"
  shows "sync_json_pcd_filenames json listing cutoff =
           (Sync_complete,
            sort_key (\<lambda>r. stem (the (File r)))
              (map (\<lambda>(r, new_fn). r\<lparr>File := Some new_fn\<rparr>) (zip json fs)))"
  using assms by (simp add: sync_json_pcd_filenames_def Let_def)

text \<open>
  The last index of a character, and the stem of a name followed by \<^verbatim>\<open>.pcd\<close>.
\<close>

lemma rfind_eqI:
  assumes "k < length p" and "p ! k = c" and "\<forall>k'. k < k' \<and> k' < length p \<longrightarrow> p ! k' \<noteq> c"
  shows "rfind p c = int k"
proof -
  have "[0..<length p] = [0..<k] @ k # [Suc k..<length p]"
    using assms(1) by (metis le_add2 le_add_same_cancel2 less_imp_add_positive upt_add_eq_append upt_conv_Cons)
  then have "rev [0..<length p] = rev [Suc k..<length p] @ k # rev [0..<k]"
    by simp
  moreover have "filter (\<lambda>k. p ! k = c) (rev [Suc k..<length p]) = []"
    using assms(3) by (auto simp: filter_empty_conv)
  ultimately show ?thesis
    using assms(2) by (simp add: rfind_def)
qed

lemma rfind_notin: "c \<notin> set p \<Longrightarrow> rfind p c = - 1"
proof -
  assume "c \<notin> set p"
  then have "filter (\<lambda>k. p ! k = c) (rev [0..<length p]) = []"
    by (auto simp: filter_empty_conv)
  then show ?thesis by (simp add: rfind_def)
qed

lemma rfind_cases:
  obtains "c \<notin> set p" "rfind p c = - 1"
  | k where "k < length p" "p ! k = c" "\<forall>k'. k < k' \<and> k' < length p \<longrightarrow> p ! k' \<noteq> c"
      "rfind p c = int k"
proof (cases "c \<in> set p")
  case False
  then show ?thesis using that(1) rfind_notin by blast
next
  case True
  define k where "k = (GREATEST k. k < length p \<and> p ! k = c)"
  have ex: "\<exists>k. k < length p \<and> p ! k = c" using True by (auto simp: in_set_conv_nth)
  have bnd: "\<forall>y. y < length p \<and> p ! y = c \<longrightarrow> y \<le> length p" by simp
  have k: "k < length p \<and> p ! k = c"
    unfolding k_def using ex bnd by (metis (mono_tags, lifting) GreatestI_ex_nat)
  have mx: "y \<le> k" if "y < length p \<and> p ! y = c" for y
    unfolding k_def using that bnd by (metis (mono_tags, lifting) Greatest_le_nat)
  have "\<forall>k'. k < k' \<and> k' < length p \<longrightarrow> p ! k' \<noteq> c"
  proof (intro allI impI notI)
    fix k' assume "k < k' \<and> k' < length p" and "p ! k' = c"
    then have "k' \<le> k" using mx[of k'] by simp
    then show False using \<open>k < k' \<and> k' < length p\<close> by simp
  qed
  then show ?thesis using that(2) k rfind_eqI by blast
qed

lemma rfind_append_notin:
  assumes "c \<notin> set q"
  shows "rfind (p @ q) c = rfind p c"
proof (cases rule: rfind_cases[of c p])
  case 1
  then show ?thesis using assms by (simp add: rfind_notin)
next
  case (2 k)
  have "rfind (p @ q) c = int k"
  proof (rule rfind_eqI)
    show "k < length (p @ q)" using 2(1) by simp
    show "(p @ q) ! k = c" using 2(1,2) by (simp add: nth_append)
    show "\<forall>k'. k < k' \<and> k' < length (p @ q) \<longrightarrow> (p @ q) ! k' \<noteq> c"
      using 2(3) assms by (auto simp: nth_append)
  qed
  then show ?thesis using 2(4) by simp
qed

lemma rfind_append_Cons:
  assumes "c \<notin> set q"
  shows "rfind (p @ c # q) c = int (length p)"
  using assms by (intro rfind_eqI) (auto simp: nth_append nth_Cons split: nat.splits)

lemma rfind_less: "rfind p c < int (length p)"
  by (cases rule: rfind_cases[of c p]) auto

lemma splitext_append: "fst (splitext p) @ snd (splitext p) = p"
  by (simp add: splitext_def Let_def)

lemma splitext_pcd:
  assumes "named m"
  shows "splitext (m @ ''.pcd'') = (m, ''.pcd'')"
proof -
  let ?p = "m @ ''.pcd''"
  have dot: "rfind ?p CHR ''.'' = int (length m)"
    using rfind_append_Cons[of "CHR ''.''" "''pcd''" m] by simp
  have sep: "rfind ?p CHR ''/'' = rfind m CHR ''/''"
    by (intro rfind_append_notin) simp
  obtain k where k: "rfind m CHR ''/'' < int k" "k < length m" "m ! k \<noteq> CHR ''.''"
    using assms by (auto simp: named_def)
  have "k \<in> set [nat (rfind m CHR ''/'' + 1)..<length m]"
    using k by auto
  moreover have "?p ! k \<noteq> CHR ''.''"
    using k by (simp add: nth_append)
  ultimately have "list_ex (\<lambda>k. ?p ! k \<noteq> CHR ''.'') [nat (rfind m CHR ''/'' + 1)..<length m]"
    unfolding list_ex_iff by blast
  then show ?thesis
    using rfind_less[of m "CHR ''/''"]
    by (simp add: splitext_def Let_def dot sep del: append.simps)
qed

lemma of_char_lower_char:
  "(of_char (lower_char c) :: nat) =
     (if (65 \<le> (of_char c :: nat) \<and> (of_char c :: nat) \<le> 90) \<or>
         (192 \<le> (of_char c :: nat) \<and> (of_char c :: nat) \<le> 222 \<and> (of_char c :: nat) \<noteq> 215)
      then of_char c + 32 else of_char c)"
  by (auto simp: lower_char_def Let_def of_char_of)

lemma lower_char_dot: "lower_char c = CHR ''.'' \<Longrightarrow> c = CHR ''.''"
proof -
  assume "lower_char c = CHR ''.''"
  then have "(of_char (lower_char c) :: nat) = 46" by simp
  then have "(of_char c :: nat) = 46"
    by (auto simp: of_char_lower_char split: if_splits)
  then have "(of_char c :: nat) = of_char CHR ''.''" by simp
  then show ?thesis by (simp only: of_char_eq_iff)
qed

lemma lower_char_letter:
  assumes "lower_char c = CHR ''p'' \<or> lower_char c = CHR ''c'' \<or> lower_char c = CHR ''d''"
  shows "c \<noteq> CHR ''.'' \<and> c \<noteq> CHR ''/''"
proof -
  have "(of_char (lower_char c) :: nat) \<in> {112, 99, 100}"
    using assms by auto
  then have "(of_char c :: nat) \<noteq> 46 \<and> (of_char c :: nat) \<noteq> 47"
    by (auto simp: of_char_lower_char split: if_splits)
  then show ?thesis by auto
qed

lemma pcd_name:
  assumes "endswith (lower f) ''.pcd''"
  obtains n where "length f = n + 4" "f ! n = CHR ''.''"
    "\<forall>k. n < k \<and> k < n + 4 \<longrightarrow> f ! k \<noteq> CHR ''.'' \<and> f ! k \<noteq> CHR ''/''"
proof -
  have l4: "length ''.pcd'' = 4" by simp
  have len: "4 \<le> length f" and dr: "drop (length f - 4) (map lower_char f) = ''.pcd''"
    using assms unfolding endswith_def lower_def l4 by simp_all
  define n where "n = length f - 4"
  have lf: "length f = n + 4" using len by (simp add: n_def)
  have nth: "lower_char (f ! (n + t)) = ''.pcd'' ! t" if "t < 4" for t
  proof -
    have "drop n (map lower_char f) ! t = map lower_char f ! (n + t)"
      using that lf by simp
    moreover have "map lower_char f ! (n + t) = lower_char (f ! (n + t))"
      using that lf by simp
    ultimately show ?thesis using dr by (simp only: n_def)
  qed
  have e: "''.pcd'' ! 0 = CHR ''.''" "''.pcd'' ! 1 = CHR ''p''"
    "''.pcd'' ! 2 = CHR ''c''" "''.pcd'' ! 3 = CHR ''d''"
    by simp_all
  have 0: "f ! n = CHR ''.''"
    using nth[of 0] unfolding e by (simp add: lower_char_dot)
  have 1: "f ! (n + 1) \<noteq> CHR ''.'' \<and> f ! (n + 1) \<noteq> CHR ''/''"
    using nth[of 1] unfolding e by (intro lower_char_letter) simp
  have 2: "f ! (n + 2) \<noteq> CHR ''.'' \<and> f ! (n + 2) \<noteq> CHR ''/''"
    using nth[of 2] unfolding e by (intro lower_char_letter) simp
  have 3: "f ! (n + 3) \<noteq> CHR ''.'' \<and> f ! (n + 3) \<noteq> CHR ''/''"
    using nth[of 3] unfolding e by (intro lower_char_letter) simp
  have "f ! k \<noteq> CHR ''.'' \<and> f ! k \<noteq> CHR ''/''" if "n < k \<and> k < n + 4" for k
  proof -
    have "k = n + 1 \<or> k = n + 2 \<or> k = n + 3" using that by linarith
    then show ?thesis using 1 2 3 by blast
  qed
  then show ?thesis using that lf 0 by blast
qed

lemma named_stem:
  assumes "endswith (lower f) ''.pcd''"
  shows "named (stem f)"
proof -
  from pcd_name[OF assms] obtain n where n: "length f = n + 4" "f ! n = CHR ''.''"
    "\<forall>k. n < k \<and> k < n + 4 \<longrightarrow> f ! k \<noteq> CHR ''.'' \<and> f ! k \<noteq> CHR ''/''"
    by blast
  have dot: "rfind f CHR ''.'' = int n"
    using n by (intro rfind_eqI) auto
  have fsplit: "f = take n f @ drop n f" by simp
  have nosep: "CHR ''/'' \<notin> set (drop n f)"
  proof
    assume "CHR ''/'' \<in> set (drop n f)"
    then obtain t where t: "t < length (drop n f)" "drop n f ! t = CHR ''/''"
      by (auto simp: in_set_conv_nth)
    then have "f ! (n + t) = CHR ''/''" "t < 4" using n(1) by simp_all
    then show False using n(2,3) by (cases "t = 0") auto
  qed
  have sep: "rfind f CHR ''/'' = rfind (take n f) CHR ''/''"
    using rfind_append_notin[OF nosep, of "take n f"] by simp
  have seplt: "rfind f CHR ''/'' < int n"
    using rfind_less[of "take n f" "CHR ''/''"] n(1) by (simp add: sep)
  show ?thesis
  proof (cases "list_ex (\<lambda>k. f ! k \<noteq> CHR ''.'') [nat (rfind f CHR ''/'' + 1)..<n]")
    case True
    then have st: "stem f = take n f"
      using seplt by (simp add: stem_def splitext_def Let_def dot)
    from True obtain k where k: "nat (rfind f CHR ''/'' + 1) \<le> k" "k < n" "f ! k \<noteq> CHR ''.''"
      by (auto simp: list_ex_iff)
    have "rfind (take n f) CHR ''/'' < int k"
      using k(1) by (simp add: sep[symmetric])
    moreover have "k < length (take n f)" "take n f ! k \<noteq> CHR ''.''"
      using k n(1) by simp_all
    ultimately show ?thesis unfolding st named_def by blast
  next
    case False
    then have st: "stem f = f"
      by (simp add: stem_def splitext_def Let_def dot)
    have "rfind f CHR ''/'' < int (n + 1)" using seplt by simp
    moreover have "n + 1 < length f" "f ! (n + 1) \<noteq> CHR ''.''"
      using n by simp_all
    ultimately show ?thesis unfolding st named_def by blast
  qed
qed

lemma stem_pcd:
  "endswith (lower f) ''.pcd'' \<Longrightarrow> stem (stem f @ ''.pcd'') = stem f"
  using splitext_pcd[OF named_stem] by (simp add: stem_def)

section \<open>A completed reconciliation rewrites and sorts the records\<close>

text \<open>
  Claim C3, as stated, says that each record's \<^verbatim>\<open>File\<close> becomes the matched file name
  with its extension. The program writes the matched stem followed by \<^verbatim>\<open>.pcd\<close>,
  while it accepts file names ending in \<^verbatim>\<open>.pcd\<close> in any case: for the directory
  entry \<open>''a.PCD''\<close> and the record \<open>''a''\<close> the reconciliation completes and the
  record's \<^verbatim>\<open>File\<close> is \<open>''a.pcd''\<close>, which is not an entry of the directory.
  The claim also takes equal counts and a match at or above the cutoff for every record
  to be a success. \<^verbatim>\<open>get_close_matches\<close> raises ValueError for a cutoff outside
  \<open>[0, 1]\<close>: with the cutoff \<open>-1\<close>, one record \<open>''a''\<close> and the one entry
  \<open>''a.pcd''\<close>, whose stem has the ratio 1 with the record's stem, the reconciliation
  raises and writes nothing.
\<close>

theorem sync_extension_counterexample:
  "sync_json_pcd_filenames [\<lparr>File = Some ''a'', Labels = Some []\<rparr>] [''a.PCD''] 0.6 =
     (Sync_complete, [\<lparr>File = Some ''a.pcd'', Labels = Some []\<rparr>]) \<and>
   ''a.pcd'' \<notin> set [''a.PCD''] \<and>
   sync_json_pcd_filenames [\<lparr>File = Some ''a'', Labels = Some []\<rparr>] [''a.pcd''] (- 1) =
     (Sync_raised ValueError, [\<lparr>File = Some ''a'', Labels = Some []\<rparr>]) \<and>
   ratio (stem ''a.pcd'') (stem ''a'') = 1"
  by code_simp

text \<open>
  Claim C3, amended. When there are as many records as directory entries whose name
  ends in \<^verbatim>\<open>.pcd\<close> (in any case), the cutoff lies between 0 and 1, and for every
  record the stem of some such entry has a similarity ratio with the stem of the
  record's \<^verbatim>\<open>File\<close> that is at least the cutoff, the reconciliation completes. When
  it completes, the counts are equal and there is for each record such an entry whose
  stem has a ratio that is at least the cutoff and is the largest among the stems of
  all such entries; the record's \<^verbatim>\<open>File\<close> becomes that stem followed by
  \<^verbatim>\<open>.pcd\<close> (the entry itself when the extension of the entry is \<^verbatim>\<open>.pcd\<close> in lower
  case), the stem of the new \<^verbatim>\<open>File\<close> is the stem of the entry, and the records
  written are the rewritten records sorted by that stem, ascending. When the counts
  are equal, the stem of every record's \<^verbatim>\<open>File\<close> is the stem of one of the entries
  and the cutoff lies between 0 and 1, the reconciliation completes, every record's
  \<^verbatim>\<open>File\<close> becomes its own stem followed by \<^verbatim>\<open>.pcd\<close>, so that its stem is
  unchanged, and the records written are these records sorted by stem, ascending.
\<close>

theorem sync_rewrites_and_sorts:
  "(length json = length (filter (\<lambda>f. endswith (lower f) ''.pcd'') listing) \<and>
    0 \<le> cutoff \<and> cutoff \<le> 1 \<and>
    (\<forall>r \<in> set json. \<exists>f \<in> set listing.
        endswith (lower f) ''.pcd'' \<and> cutoff \<le> ratio (stem f) (stem (file_or_empty r))) \<longrightarrow>
      fst (sync_json_pcd_filenames json listing cutoff) = Sync_complete) \<and>
   (fst (sync_json_pcd_filenames json listing cutoff) = Sync_complete \<longrightarrow>
      length json = length (filter (\<lambda>f. endswith (lower f) ''.pcd'') listing) \<and>
      (\<exists>fs. length fs = length json \<and>
         (\<forall>k < length json.
            fs ! k \<in> set listing \<and> endswith (lower (fs ! k)) ''.pcd'' \<and>
            cutoff \<le> ratio (stem (fs ! k)) (stem (file_or_empty (json ! k))) \<and>
            (\<forall>f \<in> set listing. endswith (lower f) ''.pcd'' \<longrightarrow>
               ratio (stem f) (stem (file_or_empty (json ! k)))
                 \<le> ratio (stem (fs ! k)) (stem (file_or_empty (json ! k)))) \<and>
            stem (stem (fs ! k) @ ''.pcd'') = stem (fs ! k) \<and>
            (snd (splitext (fs ! k)) = ''.pcd'' \<longrightarrow> stem (fs ! k) @ ''.pcd'' = fs ! k)) \<and>
         snd (sync_json_pcd_filenames json listing cutoff) =
           sort_key (\<lambda>r. stem (the (File r)))
             (map (\<lambda>(r, f). r\<lparr>File := Some (stem f @ ''.pcd'')\<rparr>) (zip json fs))) \<and>
      sorted (map (\<lambda>r. stem (the (File r))) (snd (sync_json_pcd_filenames json listing cutoff)))) \<and>
   (length json = length (filter (\<lambda>f. endswith (lower f) ''.pcd'') listing) \<and>
    (\<forall>r \<in> set json. \<exists>f \<in> set listing.
        endswith (lower f) ''.pcd'' \<and> stem f = stem (file_or_empty r)) \<and>
    0 \<le> cutoff \<and> cutoff \<le> 1 \<longrightarrow>
      fst (sync_json_pcd_filenames json listing cutoff) = Sync_complete \<and>
      snd (sync_json_pcd_filenames json listing cutoff) =
        sort_key (\<lambda>r. stem (the (File r)))
          (map (\<lambda>r. r\<lparr>File := Some (stem (file_or_empty r) @ ''.pcd'')\<rparr>) json) \<and>
      (\<forall>r \<in> set json. stem (stem (file_or_empty r) @ ''.pcd'') = stem (file_or_empty r)) \<and>
      sorted (map (\<lambda>r. stem (the (File r))) (snd (sync_json_pcd_filenames json listing cutoff))))"
proof (intro conjI impI)
  let ?pcd = "filter (\<lambda>f. endswith (lower f) ''.pcd'') listing"
  let ?out = "sync_json_pcd_filenames json listing cutoff"
  {
    assume h: "length json = length ?pcd \<and> 0 \<le> cutoff \<and> cutoff \<le> 1 \<and>
      (\<forall>r \<in> set json. \<exists>f \<in> set listing.
          endswith (lower f) ''.pcd'' \<and> cutoff \<le> ratio (stem f) (stem (file_or_empty r)))"
    then have "\<forall>r \<in> set json. \<exists>x \<in> set (map stem ?pcd).
                 cutoff \<le> ratio x (stem (file_or_empty r))"
      by (force simp: image_iff)
    with h have "\<exists>fs. match_records json (map stem ?pcd) cutoff = Inr fs"
      by (intro match_records_complete) simp_all
    with h show "fst ?out = Sync_complete"
      unfolding sync_complete_iff by blast
  }
  {
    assume "fst ?out = Sync_complete"
    then obtain new_files where len: "length json = length ?pcd"
      and mr: "match_records json (map stem ?pcd) cutoff = Inr new_files"
      unfolding sync_complete_iff by blast
    show "length json = length ?pcd" by (rule len)
    from match_records_Inr[OF mr] obtain ms where ms: "length ms = length json"
      "new_files = map (\<lambda>m. m @ ''.pcd'') ms"
      "\<forall>k < length json. ms ! k \<in> set (map stem ?pcd) \<and>
              cutoff \<le> ratio (ms ! k) (stem (file_or_empty (json ! k))) \<and>
              (\<forall>x \<in> set (map stem ?pcd).
                 ratio x (stem (file_or_empty (json ! k))) \<le> ratio (ms ! k) (stem (file_or_empty (json ! k))))"
      by blast
    have "\<forall>k < length json. \<exists>f. f \<in> set listing \<and> endswith (lower f) ''.pcd'' \<and> stem f = ms ! k"
      using ms(3) by (force simp: image_iff)
    then obtain g where g: "\<forall>k < length json.
          g k \<in> set listing \<and> endswith (lower (g k)) ''.pcd'' \<and> stem (g k) = ms ! k"
      by metis
    define fs where "fs = map g [0..<length json]"
    have fs: "length fs = length json"
      "\<forall>k < length json. fs ! k \<in> set listing \<and> endswith (lower (fs ! k)) ''.pcd'' \<and>
          stem (fs ! k) = ms ! k"
      using g by (simp_all add: fs_def)
    have msfs: "ms = map stem fs"
      using fs ms(1) by (intro nth_equalityI) simp_all
    have zipeq: "map (\<lambda>(r, new_fn). r\<lparr>File := Some new_fn\<rparr>) (zip json new_files) =
                 map (\<lambda>(r, f). r\<lparr>File := Some (stem f @ ''.pcd'')\<rparr>) (zip json fs)"
      using fs(1) by (intro nth_equalityI) (simp_all add: ms(2) msfs)
    have res: "snd ?out = sort_key (\<lambda>r. stem (the (File r)))
             (map (\<lambda>(r, f). r\<lparr>File := Some (stem f @ ''.pcd'')\<rparr>) (zip json fs))"
      using sync_complete_result[OF len mr] zipeq by simp
    have each: "fs ! k \<in> set listing \<and> endswith (lower (fs ! k)) ''.pcd'' \<and>
            cutoff \<le> ratio (stem (fs ! k)) (stem (file_or_empty (json ! k))) \<and>
            (\<forall>f \<in> set listing. endswith (lower f) ''.pcd'' \<longrightarrow>
               ratio (stem f) (stem (file_or_empty (json ! k)))
                 \<le> ratio (stem (fs ! k)) (stem (file_or_empty (json ! k)))) \<and>
            stem (stem (fs ! k) @ ''.pcd'') = stem (fs ! k) \<and>
            (snd (splitext (fs ! k)) = ''.pcd'' \<longrightarrow> stem (fs ! k) @ ''.pcd'' = fs ! k)"
      if "k < length json" for k
    proof -
      have a: "fs ! k \<in> set listing" "endswith (lower (fs ! k)) ''.pcd''" "stem (fs ! k) = ms ! k"
        using fs(2) that by simp_all
      have b: "cutoff \<le> ratio (ms ! k) (stem (file_or_empty (json ! k)))"
        "\<forall>x \<in> set (map stem ?pcd).
           ratio x (stem (file_or_empty (json ! k))) \<le> ratio (ms ! k) (stem (file_or_empty (json ! k)))"
        using ms(3) that by simp_all
      have c: "snd (splitext (fs ! k)) = ''.pcd'' \<longrightarrow> stem (fs ! k) @ ''.pcd'' = fs ! k"
        using splitext_append[of "fs ! k"] by (auto simp: stem_def)
      show ?thesis
        using a b c stem_pcd[OF a(2)] by auto
    qed
    show "\<exists>fs. length fs = length json \<and>
         (\<forall>k < length json.
            fs ! k \<in> set listing \<and> endswith (lower (fs ! k)) ''.pcd'' \<and>
            cutoff \<le> ratio (stem (fs ! k)) (stem (file_or_empty (json ! k))) \<and>
            (\<forall>f \<in> set listing. endswith (lower f) ''.pcd'' \<longrightarrow>
               ratio (stem f) (stem (file_or_empty (json ! k)))
                 \<le> ratio (stem (fs ! k)) (stem (file_or_empty (json ! k)))) \<and>
            stem (stem (fs ! k) @ ''.pcd'') = stem (fs ! k) \<and>
            (snd (splitext (fs ! k)) = ''.pcd'' \<longrightarrow> stem (fs ! k) @ ''.pcd'' = fs ! k)) \<and>
         snd ?out =
           sort_key (\<lambda>r. stem (the (File r)))
             (map (\<lambda>(r, f). r\<lparr>File := Some (stem f @ ''.pcd'')\<rparr>) (zip json fs))"
      using fs(1) each res by blast
    show "sorted (map (\<lambda>r. stem (the (File r))) (snd ?out))"
      unfolding res by simp
  }
  {
    assume h: "length json = length ?pcd \<and>
      (\<forall>r \<in> set json. \<exists>f \<in> set listing.
          endswith (lower f) ''.pcd'' \<and> stem f = stem (file_or_empty r)) \<and>
      0 \<le> cutoff \<and> cutoff \<le> 1"
    then have "\<forall>r \<in> set json. stem (file_or_empty r) \<in> set (map stem ?pcd)"
      by (force simp: image_iff)
    then have mr: "match_records json (map stem ?pcd) cutoff =
                 Inr (map (\<lambda>r. stem (file_or_empty r) @ ''.pcd'') json)"
      using h by (intro match_records_exact) simp_all
    have zipeq: "map (\<lambda>(r, new_fn). r\<lparr>File := Some new_fn\<rparr>)
            (zip json (map (\<lambda>r. stem (file_or_empty r) @ ''.pcd'') json)) =
          map (\<lambda>r. r\<lparr>File := Some (stem (file_or_empty r) @ ''.pcd'')\<rparr>) json"
      by (intro nth_equalityI) simp_all
    have res: "?out = (Sync_complete, sort_key (\<lambda>r. stem (the (File r)))
          (map (\<lambda>r. r\<lparr>File := Some (stem (file_or_empty r) @ ''.pcd'')\<rparr>) json))"
      using sync_complete_result[OF _ mr] h zipeq by simp
    show "fst ?out = Sync_complete" by (simp add: res)
    show "snd ?out = sort_key (\<lambda>r. stem (the (File r)))
          (map (\<lambda>r. r\<lparr>File := Some (stem (file_or_empty r) @ ''.pcd'')\<rparr>) json)"
      by (simp add: res)
    show "\<forall>r \<in> set json. stem (stem (file_or_empty r) @ ''.pcd'') = stem (file_or_empty r)"
      using h stem_pcd by metis
    show "sorted (map (\<lambda>r. stem (the (File r))) (snd ?out))"
      by (simp add: res)
  }
qed

theorem sync_rewrites_and_sorts_witness:
  "sync_json_pcd_filenames
     [\<lparr>File = Some ''0002a.png'', Labels = Some []\<rparr>, \<lparr>File = Some ''0001b.png'', Labels = None\<rparr>]
     [''0002.pcd'', ''notes.txt'', ''0001.pcd''] 0.6 =
   (Sync_complete,
     [\<lparr>File = Some ''0001.pcd'', Labels = None\<rparr>, \<lparr>File = Some ''0002.pcd'', Labels = Some []\<rparr>]) \<and>
   sync_json_pcd_filenames
     [\<lparr>File = Some ''0002.png'', Labels = Some []\<rparr>, \<lparr>File = Some ''0001.png'', Labels = None\<rparr>]
     [''0002.pcd'', ''notes.txt'', ''0001.pcd''] 0.6 =
   (Sync_complete,
     [\<lparr>File = Some ''0001.pcd'', Labels = None\<rparr>, \<lparr>File = Some ''0002.pcd'', Labels = Some []\<rparr>])"
proof -
  let ?fuzzy = "[\<lparr>File = Some ''0002a.png'', Labels = Some []\<rparr>,
                 \<lparr>File = Some ''0001b.png'', Labels = None\<rparr>]"
  let ?json = "[\<lparr>File = Some ''0002.png'', Labels = Some []\<rparr>,
                \<lparr>File = Some ''0001.png'', Labels = None\<rparr>]"
  let ?listing = "[''0002.pcd'', ''notes.txt'', ''0001.pcd'']"
  have fhyp: "length ?fuzzy = length (filter (\<lambda>f. endswith (lower f) ''.pcd'') ?listing) \<and>
    (0 :: real) \<le> 0.6 \<and> (0.6 :: real) \<le> 1 \<and>
    (\<forall>r \<in> set ?fuzzy. \<exists>f \<in> set ?listing.
        endswith (lower f) ''.pcd'' \<and> 0.6 \<le> ratio (stem f) (stem (file_or_empty r)))"
    by code_simp
  have fsnd: "snd (sync_json_pcd_filenames ?fuzzy ?listing 0.6) =
     [\<lparr>File = Some ''0001.pcd'', Labels = None\<rparr>, \<lparr>File = Some ''0002.pcd'', Labels = Some []\<rparr>]"
    by code_simp
  have "fst (sync_json_pcd_filenames ?fuzzy ?listing 0.6) = Sync_complete"
    using sync_rewrites_and_sorts[of ?fuzzy ?listing "0.6", THEN conjunct1, THEN mp, OF fhyp] .
  with fsnd have fuzzy: "sync_json_pcd_filenames ?fuzzy ?listing 0.6 =
     (Sync_complete,
      [\<lparr>File = Some ''0001.pcd'', Labels = None\<rparr>, \<lparr>File = Some ''0002.pcd'', Labels = Some []\<rparr>])"
    by (simp only: prod_eq_iff fst_conv snd_conv simp_thms)
  have hyp: "length ?json = length (filter (\<lambda>f. endswith (lower f) ''.pcd'') ?listing) \<and>
    (\<forall>r \<in> set ?json. \<exists>f \<in> set ?listing.
        endswith (lower f) ''.pcd'' \<and> stem f = stem (file_or_empty r)) \<and>
    (0 :: real) \<le> 0.6 \<and> (0.6 :: real) \<le> 1"
    by code_simp
  have srt: "sort_key (\<lambda>r. stem (the (File r)))
          (map (\<lambda>r. r\<lparr>File := Some (stem (file_or_empty r) @ ''.pcd'')\<rparr>) ?json) =
     [\<lparr>File = Some ''0001.pcd'', Labels = None\<rparr>, \<lparr>File = Some ''0002.pcd'', Labels = Some []\<rparr>]"
    by code_simp
  note r = sync_rewrites_and_sorts[of ?json ?listing "0.6", THEN conjunct2, THEN conjunct2,
      rule_format, OF hyp]
  have "fst (sync_json_pcd_filenames ?json ?listing 0.6) = Sync_complete"
    using r [THEN conjunct1] .
  moreover have "snd (sync_json_pcd_filenames ?json ?listing 0.6) =
     [\<lparr>File = Some ''0001.pcd'', Labels = None\<rparr>, \<lparr>File = Some ''0002.pcd'', Labels = Some []\<rparr>]"
    using r [THEN conjunct2, THEN conjunct1] unfolding srt .
  ultimately have "sync_json_pcd_filenames ?json ?listing 0.6 =
     (Sync_complete,
      [\<lparr>File = Some ''0001.pcd'', Labels = None\<rparr>, \<lparr>File = Some ''0002.pcd'', Labels = Some []\<rparr>])"
    by (simp only: prod_eq_iff fst_conv snd_conv simp_thms)
  with fuzzy show ?thesis by (simp only: simp_thms)
qed

section \<open>The lookup of a record's point cloud\<close>

lemma find_first:
  "\<exists>x \<in> set xs. P x \<Longrightarrow> find P xs = Some (hd (filter P xs))"
  by (induction xs) auto

lemma find_none: "\<forall>x \<in> set xs. \<not> P x \<Longrightarrow> find P xs = None"
  by (induction xs) auto

text \<open>
  Claim C9, as stated, says that the lookup returns a file of the directory with the
  prefix \<^verbatim>\<open>cloud_<stem>_\<close> if one exists, and otherwise the best fuzzy match.
  \<^verbatim>\<open>_find_pcd\<close> looks only at the entries whose name ends in \<^verbatim>\<open>.pcd\<close> in lower
  case: in a directory that holds \<open>''cloud_0001_1.PCD''\<close> alone, the lookup for
  \<open>''0001.png''\<close> returns no file, although that entry has the prefix. And the fuzzy
  match returns the matched stem followed by \<^verbatim>\<open>.pcd\<close>: in a directory that holds
  \<open>''.pcd''\<close> alone, whose stem is the whole name, the lookup for \<open>''.pcx''\<close> returns
  \<open>''.pcd.pcd''\<close>, which is no entry of the directory.
\<close>

theorem find_pcd_candidates_counterexample:
  "find_pcd \<lparr>data = [], frame_i = 0, pts = [], pcd_dir = [''cloud_0001_1.PCD''],
             combo = - 1, rot = 0\<rparr> ''0001.png'' = Inr None \<and>
   startswith ''cloud_0001_1.PCD'' (''cloud_'' @ stem ''0001.png'' @ ''_'') \<and>
   find_pcd \<lparr>data = [], frame_i = 0, pts = [], pcd_dir = [''.pcd''],
             combo = - 1, rot = 0\<rparr> ''.pcx'' = Inr (Some ''.pcd.pcd'') \<and>
   ''.pcd.pcd'' \<notin> set [''.pcd'']"
  by code_simp

text \<open>
  Claim C9, amended. The candidates are the entries of the directory whose name ends
  in \<^verbatim>\<open>.pcd\<close> in lower case. \<^verbatim>\<open>_find_pcd\<close> returns the first candidate that starts
  with \<^verbatim>\<open>cloud_<stem>_\<close>, where the stem is the reference without its extension, if
  there is one. Otherwise, if the stem of some candidate has a similarity ratio of at
  least 0.6 with the stem of the reference, it returns the stem of a candidate with the
  largest ratio, followed by \<^verbatim>\<open>.pcd\<close> (the candidate itself when the candidate's
  extension is \<^verbatim>\<open>.pcd\<close>). Otherwise it returns no file. It returns a value only, and
  \<^verbatim>\<open>_load_cloud\<close>, which calls it, leaves the records of the store as they are.
\<close>

theorem find_pcd_lookup:
  "((\<exists>f \<in> set (filter (\<lambda>f. endswith f ''.pcd'') (pcd_dir s)).
        startswith f (''cloud_'' @ stem img @ ''_'')) \<longrightarrow>
      find_pcd s img =
        Inr (Some (hd (filter (\<lambda>f. startswith f (''cloud_'' @ stem img @ ''_''))
                         (filter (\<lambda>f. endswith f ''.pcd'') (pcd_dir s))))) \<and>
      hd (filter (\<lambda>f. startswith f (''cloud_'' @ stem img @ ''_''))
            (filter (\<lambda>f. endswith f ''.pcd'') (pcd_dir s))) \<in> set (pcd_dir s)) \<and>
   ((\<forall>f \<in> set (filter (\<lambda>f. endswith f ''.pcd'') (pcd_dir s)).
        \<not> startswith f (''cloud_'' @ stem img @ ''_'')) \<and>
    (\<exists>f \<in> set (filter (\<lambda>f. endswith f ''.pcd'') (pcd_dir s)).
        0.6 \<le> ratio (stem f) (stem img)) \<longrightarrow>
      (\<exists>f \<in> set (pcd_dir s). endswith f ''.pcd'' \<and>
         find_pcd s img = Inr (Some (stem f @ ''.pcd'')) \<and>
         0.6 \<le> ratio (stem f) (stem img) \<and>
         (\<forall>g \<in> set (pcd_dir s). endswith g ''.pcd'' \<longrightarrow>
            ratio (stem g) (stem img) \<le> ratio (stem f) (stem img)) \<and>
         (snd (splitext f) = ''.pcd'' \<longrightarrow> stem f @ ''.pcd'' = f))) \<and>
   ((\<forall>f \<in> set (filter (\<lambda>f. endswith f ''.pcd'') (pcd_dir s)).
        \<not> startswith f (''cloud_'' @ stem img @ ''_'') \<and> ratio (stem f) (stem img) < 0.6) \<longrightarrow>
      find_pcd s img = Inr None) \<and>
   data (state_of (load_cloud read_point_cloud s)) = data s"
proof (intro conjI impI)
  let ?cands = "filter (\<lambda>f. endswith f ''.pcd'') (pcd_dir s)"
  let ?pref = "''cloud_'' @ stem img @ ''_''"
  {
    assume ex: "\<exists>f \<in> set ?cands. startswith f ?pref"
    then have "find (\<lambda>f. startswith f ?pref) ?cands =
                 Some (hd (filter (\<lambda>f. startswith f ?pref) ?cands))"
      by (rule find_first)
    then show "find_pcd s img = Inr (Some (hd (filter (\<lambda>f. startswith f ?pref) ?cands)))"
      by (simp add: find_pcd_def Let_def del: append.simps)
    have "filter (\<lambda>f. startswith f ?pref) ?cands \<noteq> []"
      using ex by (auto simp: filter_empty_conv simp del: append.simps)
    then have "hd (filter (\<lambda>f. startswith f ?pref) ?cands) \<in> set (filter (\<lambda>f. startswith f ?pref) ?cands)"
      by (rule hd_in_set)
    then show "hd (filter (\<lambda>f. startswith f ?pref) ?cands) \<in> set (pcd_dir s)"
      by (simp del: append.simps)
  }
  {
    assume h: "(\<forall>f \<in> set ?cands. \<not> startswith f ?pref) \<and>
               (\<exists>f \<in> set ?cands. 0.6 \<le> ratio (stem f) (stem img))"
    then have none: "find (\<lambda>f. startswith f ?pref) ?cands = None"
      by (intro find_none) blast
    from h obtain f0 where f0: "stem f0 \<in> set (map stem ?cands)" "0.6 \<le> ratio (stem f0) (stem img)"
      by auto
    have c: "(0 :: real) \<le> 0.6" "(0.6 :: real) \<le> 1" by simp_all
    from get_close_matches_best[OF c f0]
    obtain m where m: "get_close_matches (stem img) (map stem ?cands) 1 0.6 = Inr [m]"
      "m \<in> set (map stem ?cands)"
      by blast
    note best = get_close_matches_Inr_Cons[OF m(1)]
    from m(2) obtain f where f: "f \<in> set (pcd_dir s)" "endswith f ''.pcd''" "stem f = m"
      by auto
    have res: "find_pcd s img = Inr (Some (stem f @ ''.pcd''))"
      using none m(1) f(3) by (simp add: find_pcd_def Let_def del: append.simps)
    have "ratio (stem g) (stem img) \<le> ratio (stem f) (stem img)"
      if "g \<in> set (pcd_dir s)" "endswith g ''.pcd''" for g
      using best that f(3) by simp
    moreover have "snd (splitext f) = ''.pcd'' \<longrightarrow> stem f @ ''.pcd'' = f"
      using splitext_append[of f] by (auto simp: stem_def)
    ultimately show "\<exists>f \<in> set (pcd_dir s). endswith f ''.pcd'' \<and>
         find_pcd s img = Inr (Some (stem f @ ''.pcd'')) \<and>
         0.6 \<le> ratio (stem f) (stem img) \<and>
         (\<forall>g \<in> set (pcd_dir s). endswith g ''.pcd'' \<longrightarrow>
            ratio (stem g) (stem img) \<le> ratio (stem f) (stem img)) \<and>
         (snd (splitext f) = ''.pcd'' \<longrightarrow> stem f @ ''.pcd'' = f)"
      using f res best by blast
  }
  {
    assume h: "\<forall>f \<in> set ?cands. \<not> startswith f ?pref \<and> ratio (stem f) (stem img) < 0.6"
    then have none: "find (\<lambda>f. startswith f ?pref) ?cands = None"
      by (intro find_none) blast
    have c: "(0 :: real) \<le> 0.6" "(0.6 :: real) \<le> 1" by simp_all
    have "\<forall>x \<in> set (map stem ?cands). ratio x (stem img) < 0.6"
      using h by auto
    from get_close_matches_empty[OF c this]
    show "find_pcd s img = Inr None"
      using none by (simp add: find_pcd_def Let_def del: append.simps)
  }
  show "data (state_of (load_cloud read_point_cloud s)) = data s"
    by simp
qed

theorem find_pcd_lookup_witness:
  "find_pcd \<lparr>data = [], frame_i = 0, pts = [],
             pcd_dir = [''0002.pcd'', ''cloud_0001_17.pcd'', ''cloud_0001_18.pcd'', ''readme.md''],
             combo = - 1, rot = 0\<rparr> ''0001.png'' = Inr (Some ''cloud_0001_17.pcd'') \<and>
   find_pcd \<lparr>data = [], frame_i = 0, pts = [],
             pcd_dir = [''0002.pcd'', ''cloud_0001_17.pcd'', ''cloud_0001_18.pcd'', ''readme.md''],
             combo = - 1, rot = 0\<rparr> ''zzzz.png'' = Inr None"
proof -
  let ?s = "\<lparr>data = [], frame_i = 0, pts = [],
             pcd_dir = [''0002.pcd'', ''cloud_0001_17.pcd'', ''cloud_0001_18.pcd'', ''readme.md''],
             combo = - 1, rot = 0\<rparr>"
  have h1: "\<exists>f \<in> set (filter (\<lambda>f. endswith f ''.pcd'') (pcd_dir ?s)).
        startswith f (''cloud_'' @ stem ''0001.png'' @ ''_'')"
    by code_simp
  have e1: "hd (filter (\<lambda>f. startswith f (''cloud_'' @ stem ''0001.png'' @ ''_''))
                         (filter (\<lambda>f. endswith f ''.pcd'') (pcd_dir ?s))) = ''cloud_0001_17.pcd''"
    by code_simp
  have h3: "\<forall>f \<in> set (filter (\<lambda>f. endswith f ''.pcd'') (pcd_dir ?s)).
        \<not> startswith f (''cloud_'' @ stem ''zzzz.png'' @ ''_'') \<and>
        ratio (stem f) (stem ''zzzz.png'') < 0.6"
    by code_simp
  have "find_pcd ?s ''0001.png'' = Inr (Some ''cloud_0001_17.pcd'')"
    using find_pcd_lookup[of ?s "''0001.png''", THEN conjunct1, THEN mp, OF h1, THEN conjunct1]
    unfolding e1 .
  moreover have "find_pcd ?s ''zzzz.png'' = Inr None"
    using find_pcd_lookup[of ?s "''zzzz.png''", THEN conjunct2, THEN conjunct2, THEN conjunct1,
        THEN mp, OF h3] .
  ultimately show ?thesis by (simp only: simp_thms)
qed

end
